theory Spec2Isabelle
  imports Main
begin

section \<open>The pairs analyzer of splinter\<close>

text \<open>
  The analyzer of package \<open>pairs\<close> looks at every call of a registered function or
  method and checks that the arguments from a registered offset on are key/value
  pairs: an even number of them, with a string at every key position. This theory
  embeds the configuration parsers (\<open>funcOffset.Set\<close>, \<open>typeWhitelist.Set\<close>), the
  whitelist test (\<open>isWhitelisted\<close>), the validation of one call (\<open>argsCorrect\<close>) and
  the visitor that finds the rule of a call (the function given to \<open>astutil.Apply\<close>
  in \<open>Run\<close>).
\<close>

subsection \<open>What the analyzer reads of go/types, go/constant and go/ast\<close>

text \<open>
  A \<open>types.Package\<close> is known by its path. \<open>Object.Pkg()\<close> is nil for the objects of
  the universe scope (the predeclared type \<open>error\<close>), so the package of a type name
  is optional; \<open>Package.Path\<close> reads a field of its receiver and panics on nil.
\<close>

datatype Package = Package (Path: string)

datatype TypeName = TypeName (Pkg: "Package option") (ObjName: string)

datatype BasicKind =
    types_Invalid | types_Bool | types_Int | types_Int8 | types_Int16 | types_Int32
  | types_Int64 | types_Uint | types_Uint8 | types_Uint16 | types_Uint32 | types_Uint64
  | types_Uintptr | types_Float32 | types_Float64 | types_Complex64 | types_Complex128
  | types_String | types_UnsafePointer | types_UntypedBool | types_UntypedInt
  | types_UntypedRune | types_UntypedFloat | types_UntypedComplex | types_UntypedString
  | types_UntypedNil

text \<open>
  The types the analyzer tells apart: basic types (with their kind and name), named
  types (with their object and underlying type), pointers, and every other type
  (slices, structs, interfaces, signatures, ...) with the text \<open>types.TypeString\<close>
  prints for it.
\<close>

datatype gotype =
    is_Basic: Basic (Kind: BasicKind) (BasicName: string)
  | is_Named: Named (Obj: TypeName) (underlying: gotype)
  | is_Pointer: Pointer (Elem: gotype)
  | OtherType string

fun Underlying :: "gotype \<Rightarrow> gotype" where
  "Underlying (Named obj u) = u"
| "Underlying t = t"

text \<open>
  \<open>types.TypeString(typ, nil)\<close>: with no qualifier a named type is printed with the
  path of its package, when it has one; a nil type is printed \<open><nil>\<close>.
\<close>

fun typeString :: "gotype \<Rightarrow> string" where
  "typeString (Basic k n) = n"
| "typeString (Named obj u) =
     (case Pkg obj of None \<Rightarrow> ObjName obj | Some pk \<Rightarrow> Path pk @ ''.'' @ ObjName obj)"
| "typeString (Pointer t) = ''*'' @ typeString t"
| "typeString (OtherType s) = s"

definition TypeString :: "gotype option \<Rightarrow> string" where
  "TypeString typ = (case typ of None \<Rightarrow> ''<nil>'' | Some t \<Rightarrow> typeString t)"

datatype constant_Kind =
    constant_Unknown | constant_Bool | constant_String | constant_Int | constant_Float
  | constant_Complex

text \<open>Of a constant value only its kind is read.\<close>

datatype constant_Value = constant_Value (ValueKind: constant_Kind)

text \<open>\<open>types.TypeAndValue\<close>: both fields are nil in the zero value.\<close>

record TypeAndValue =
  Type :: "gotype option"
  Value :: "constant_Value option"

datatype Ident = Ident (NamePos: nat) (IdentName: string)

datatype Expr =
    IdentExpr Ident
  | SelectorExpr (X: Expr) (Sel: Ident)
  | CallExpr (Fun: Expr) (Args: "Expr list")
  | OtherExpr nat

text \<open>\<open>Pos()\<close> of a node: where its first token starts.\<close>

fun ExprPos :: "Expr \<Rightarrow> nat" where
  "ExprPos (IdentExpr i) = NamePos i"
| "ExprPos (SelectorExpr x s) = ExprPos x"
| "ExprPos (CallExpr f as) = ExprPos f"
| "ExprPos (OtherExpr n) = n"

datatype Object = PkgName (Imported: Package) | OtherObject

text \<open>
  \<open>types.Selection\<close>: the receiver type of \<open>x.f\<close>, and the text
  \<open>types.SelectionString(s, nil)\<close> prints for the selection.
\<close>

record Selection =
  Recv :: gotype
  SelectionString :: string

record Info =
  Types :: "Expr \<rightharpoonup> TypeAndValue"
  Selections :: "Expr \<rightharpoonup> Selection"
  Uses :: "Ident \<rightharpoonup> Object"

record Pass =
  TypesInfo :: Info

text \<open>\<open>p.TypesInfo.Types[e]\<close>: a Go map gives the zero value for a missing key.\<close>

definition TypesOf :: "Pass \<Rightarrow> Expr \<Rightarrow> TypeAndValue" where
  "TypesOf p e =
     (case Types (TypesInfo p) e of
        None \<Rightarrow> \<lparr>Type = None, Value = None\<rparr>
      | Some tv \<Rightarrow> tv)"

text \<open>A diagnostic, as \<open>p.Reportf(pos, format, args...)\<close> reports it.\<close>

record Diagnostic =
  Pos' :: nat
  Message :: string

datatype panic = NilDereference | TypeAssertion

subsection \<open>Formatting\<close>

text \<open>The verb \<open>%d\<close> of a non-negative integer: its decimal digits.\<close>

definition digit :: "nat \<Rightarrow> char" where
  "digit d = ''0123456789'' ! d"

function itoa :: "nat \<Rightarrow> string" where
  "itoa n = (if n < 10 then [digit n] else itoa (n div 10) @ [digit (n mod 10)])"
  by pat_completeness auto
termination
  by (relation "measure id") auto

declare itoa.simps [simp del]

definition arityMessage :: "nat \<Rightarrow> string \<Rightarrow> string" where
  "arityMessage n name = itoa n @ '' args passed to '' @ name @ ''; must be even''"

definition whitelistedMessage :: "nat \<Rightarrow> string \<Rightarrow> string" where
  "whitelistedMessage i name =
     ''arg '' @ itoa i @ '' to '' @ name @ '' is a whitelisted type; should pass one or none''"

definition constantMessage :: "nat \<Rightarrow> string \<Rightarrow> string \<Rightarrow> string" where
  "constantMessage i name typ =
     ''arg '' @ itoa i @ '' to '' @ name @ '' is constant '' @ typ
       @ '' but should be a constant string''"

definition expressionMessage :: "nat \<Rightarrow> string \<Rightarrow> string \<Rightarrow> string" where
  "expressionMessage i name typ =
     ''arg '' @ itoa i @ '' to '' @ name @ '' is expression '' @ typ
       @ '' but should be a constant string''"

subsection \<open>The whitelist test\<close>

text \<open>
  The struct \<open>whitelistableType{pkg, typ}\<close>; the fields carry the prefix \<open>wl_\<close>, since
  \<open>typ\<close> is a keyword here and \<open>funcSelector\<close> has fields of the same names.
\<close>

record whitelistableType =
  wl_pkg :: string
  wl_typ :: string

type_synonym typeWhitelist = "whitelistableType \<rightharpoonup> bool"

text \<open>\<open>whitelistedTypes[k]\<close>: false for a missing key.\<close>

definition whitelisted :: "typeWhitelist \<Rightarrow> whitelistableType \<Rightarrow> bool" where
  "whitelisted w k = (case w k of None \<Rightarrow> False | Some b \<Rightarrow> b)"

text \<open>
  \<open>whitelistableType{pkg: named.Obj().Pkg().Path(), typ: named.Obj().Name()}\<close>: the
  key of a named type, or the panic of \<open>Path\<close> on a nil package.
\<close>

definition whitelistKey :: "TypeName \<Rightarrow> panic + whitelistableType" where
  "whitelistKey obj =
     (case Pkg obj of
        None \<Rightarrow> Inl NilDereference
      | Some pk \<Rightarrow> Inr \<lparr>wl_pkg = Path pk, wl_typ = ObjName obj\<rparr>)"

text \<open>The second test of \<open>isWhitelisted\<close>: the type itself is a named type.\<close>

definition isWhitelistedNamed :: "typeWhitelist \<Rightarrow> gotype option \<Rightarrow> panic + bool" where
  "isWhitelistedNamed w t =
     (case t of
        Some (Named obj u) \<Rightarrow>
          (case whitelistKey obj of
             Inl e \<Rightarrow> Inl e
           | Inr k \<Rightarrow> Inr (whitelisted w k))
      | _ \<Rightarrow> Inr False)"

text \<open>
  \<open>isWhitelisted\<close>: first a pointer to a named type, then a named type. A type
  assertion with \<open>, ok\<close> on a nil \<open>typ.Type\<close> fails without a panic.
\<close>

definition isWhitelisted :: "typeWhitelist \<Rightarrow> Pass \<Rightarrow> Expr \<Rightarrow> panic + bool" where
  "isWhitelisted w p e =
     (let t = Type (TypesOf p e) in
      case t of
        Some (Pointer (Named obj u)) \<Rightarrow>
          (case whitelistKey obj of
             Inl e \<Rightarrow> Inl e
           | Inr k \<Rightarrow> if whitelisted w k then Inr True else isWhitelistedNamed w t)
      | _ \<Rightarrow> isWhitelistedNamed w t)"

subsection \<open>The validation of one call\<close>

text \<open>
  The first loop of \<open>argsCorrect\<close> over \<open>c.Args[offset:]\<close>: the diagnostic of the
  first whitelisted argument, if there is one. \<open>i\<close> is the index in the slice.
\<close>

fun whitelistLoop ::
  "typeWhitelist \<Rightarrow> Pass \<Rightarrow> nat \<Rightarrow> string \<Rightarrow> nat \<Rightarrow> nat \<Rightarrow> Expr list
    \<Rightarrow> panic + Diagnostic option" where
  "whitelistLoop w p cpos name offset i [] = Inr None"
| "whitelistLoop w p cpos name offset i (a # as) =
     (case isWhitelisted w p a of
        Inl e \<Rightarrow> Inl e
      | Inr True \<Rightarrow> Inr (Some \<lparr>Pos' = cpos, Message = whitelistedMessage (i + offset) name\<rparr>)
      | Inr False \<Rightarrow> whitelistLoop w p cpos name offset (i + 1) as)"

text \<open>The body of the second loop for an argument at an even index.\<close>

definition checkKey :: "Pass \<Rightarrow> string \<Rightarrow> nat \<Rightarrow> nat \<Rightarrow> Expr \<Rightarrow> Diagnostic list" where
  "checkKey p name offset i a =
     (let tv = TypesOf p a in
      case Value tv of
        Some v \<Rightarrow>
          if ValueKind v \<noteq> constant_String
          then [\<lparr>Pos' = ExprPos a,
                 Message = constantMessage (i + offset) name (TypeString (Type tv))\<rparr>]
          else []
      | None \<Rightarrow>
          (case Type tv of
             Some t \<Rightarrow>
               if is_Basic (Underlying t) \<and> Kind (Underlying t) = types_String then []
               else [\<lparr>Pos' = ExprPos a,
                      Message = expressionMessage (i + offset) name (TypeString (Type tv))\<rparr>]
           | None \<Rightarrow> []))"

text \<open>The second loop: the diagnostics of the key positions, in order.\<close>

fun keyLoop :: "Pass \<Rightarrow> string \<Rightarrow> nat \<Rightarrow> nat \<Rightarrow> Expr list \<Rightarrow> Diagnostic list" where
  "keyLoop p name offset i [] = []"
| "keyLoop p name offset i (a # as) =
     (if i mod 2 \<noteq> 0 then keyLoop p name offset (i + 1) as
      else checkKey p name offset i a @ keyLoop p name offset (i + 1) as)"

text \<open>
  \<open>argsCorrect\<close>: the diagnostics it reports for the call \<open>c\<close>, or the panic that
  ends it. The offset is a natural number: the rule table holds what \<open>\d+\<close> matched.
\<close>

definition argsCorrect ::
  "typeWhitelist \<Rightarrow> Pass \<Rightarrow> string \<Rightarrow> nat \<Rightarrow> Expr \<Rightarrow> panic + Diagnostic list" where
  "argsCorrect w p name offset c =
     (if length (Args c) \<le> offset then Inr []
      else
        case (if length (Args c) - offset = 1 then isWhitelisted w p (Args c ! offset)
              else Inr False) of
          Inl e \<Rightarrow> Inl e
        | Inr True \<Rightarrow> Inr []
        | Inr False \<Rightarrow>
            if (length (Args c) - offset) mod 2 \<noteq> 0
            then Inr [\<lparr>Pos' = ExprPos c, Message = arityMessage (length (Args c)) name\<rparr>]
            else
              (case whitelistLoop w p (ExprPos c) name offset 0 (drop offset (Args c)) of
                 Inl e \<Rightarrow> Inl e
               | Inr (Some d) \<Rightarrow> Inr [d]
               | Inr None \<Rightarrow> Inr (keyLoop p name offset 0 (drop offset (Args c)))))"

subsection \<open>The rule table and the visitor\<close>

text \<open>
  The struct \<open>funcSelector{pkg, typ, fun}\<close> (the fields carry the prefix \<open>sel_\<close>) and the
  rule table \<open>funcOffset\<close>, a Go map from selectors to offsets.
\<close>

record funcSelector =
  sel_pkg :: string
  sel_typ :: string
  sel_fun :: string

type_synonym funcOffset = "funcSelector \<rightharpoonup> nat"

text \<open>
  The function \<open>Run\<close> gives to \<open>astutil.Apply\<close>, at one node: the diagnostics reported
  there. A call that is not a selector call, a selection whose receiver is not a named
  type and a call with no rule report nothing. The two type assertions without
  \<open>, ok\<close> on the package-function path panic when they fail, and so does \<open>Path\<close> on the
  nil package of a receiver type of the universe scope.
\<close>

definition visitNode ::
  "funcOffset \<Rightarrow> typeWhitelist \<Rightarrow> Pass \<Rightarrow> Expr \<Rightarrow> panic + Diagnostic list" where
  "visitNode offsets w p node =
     (case node of
        CallExpr (SelectorExpr x sel) args \<Rightarrow>
          (case Selections (TypesInfo p) (SelectorExpr x sel) of
             None \<Rightarrow>
               (case x of
                  IdentExpr ident \<Rightarrow>
                    (case Uses (TypesInfo p) ident of
                       Some (PkgName imported) \<Rightarrow>
                         (case offsets \<lparr>sel_pkg = Path imported, sel_typ = [],
                                 sel_fun = IdentName sel\<rparr> of
                            None \<Rightarrow> Inr []
                          | Some offset \<Rightarrow>
                              argsCorrect w p (Path imported @ ''.'' @ IdentName sel) offset node)
                     | _ \<Rightarrow> Inl TypeAssertion)
                | _ \<Rightarrow> Inl TypeAssertion)
           | Some nv \<Rightarrow>
               (case Recv nv of
                  Named obj u \<Rightarrow>
                    (case offsets \<lparr>sel_pkg = [], sel_typ = [], sel_fun = IdentName sel\<rparr> of
                       Some offset \<Rightarrow> argsCorrect w p (SelectionString nv) offset node
                     | None \<Rightarrow>
                         (case Pkg obj of
                            None \<Rightarrow> Inl NilDereference
                          | Some pk \<Rightarrow>
                              (case offsets \<lparr>sel_pkg = Path pk, sel_typ = ObjName obj,
                                      sel_fun = IdentName sel\<rparr> of
                                 None \<Rightarrow> Inr []
                               | Some offset \<Rightarrow>
                                   argsCorrect w p (SelectionString nv) offset node)))
                | _ \<Rightarrow> Inr []))
      | _ \<Rightarrow> Inr [])"

subsection \<open>Regular expressions, as package regexp matches them\<close>

text \<open>
  The two patterns of the analyzer use character classes, sequences, the greedy
  \<open>?\<close>, the non-greedy \<open>*?\<close> and the greedy \<open>+\<close> of one character class (\<open>x+\<close> is \<open>xx*\<close>),
  groups, and the anchors \<open>^\<close> and \<open>$\<close>. The patterns are compiled with Perl syntax and no flag:
  \<open>.\<close> matches every character but the newline, a negated class matches the newline
  too, \<open>\d\<close> is an ASCII digit, \<open>^\<close> and \<open>$\<close> match at the two ends of the text only.
  Strings are lists of bytes; the classes of the two patterns are made of ASCII
  characters, which no byte of a longer UTF-8 sequence equals.
\<close>

datatype charClass =
    AnyCharNotNL
  | Literal char
  | NotAnyOf "char list"
  | PerlDigit

fun classMatches :: "charClass \<Rightarrow> char \<Rightarrow> bool" where
  "classMatches AnyCharNotNL c = (c \<noteq> CHR 0x0A)"
| "classMatches (Literal x) c = (c = x)"
| "classMatches (NotAnyOf xs) c = (c \<notin> set xs)"
| "classMatches PerlDigit c = (c \<in> set ''0123456789'')"

datatype regexp =
    BeginText
  | EndText
  | CharClass charClass
  | Seq regexp regexp
  | Quest regexp
  | StarLazy charClass
  | Star charClass
  | Plus charClass
  | Capture nat regexp

text \<open>
  A thread of the match: the position in the text, the text from there on, and the
  groups matched so far.
\<close>

type_synonym captures = "nat \<rightharpoonup> string"
type_synonym thread = "nat \<times> string \<times> captures"

text \<open>
  The positions a repetition of one class can stop at, from none of the characters
  on, the shortest first.
\<close>

fun lazyRuns :: "charClass \<Rightarrow> nat \<Rightarrow> string \<Rightarrow> (nat \<times> string) list" where
  "lazyRuns cc i [] = [(i, [])]"
| "lazyRuns cc i (x # xs) =
     (i, x # xs) # (if classMatches cc x then lazyRuns cc (Suc i) xs else [])"

text \<open>The same positions, the longest first.\<close>

fun greedyRuns :: "charClass \<Rightarrow> nat \<Rightarrow> string \<Rightarrow> (nat \<times> string) list" where
  "greedyRuns cc i [] = [(i, [])]"
| "greedyRuns cc i (x # xs) =
     (if classMatches cc x then greedyRuns cc (Suc i) xs else []) @ [(i, x # xs)]"

text \<open>
  The threads a pattern leaves of one thread, in the order a backtracking search
  tries them: package regexp returns the match such a search finds first. A greedy
  operator puts the longer alternative first, a non-greedy one the shorter.
\<close>

fun steps :: "regexp \<Rightarrow> thread \<Rightarrow> thread list" where
  "steps BeginText (i, r, c) = (if i = 0 then [(i, r, c)] else [])"
| "steps EndText (i, r, c) = (if r = [] then [(i, r, c)] else [])"
| "steps (CharClass cc) (i, r, c) =
     (case r of
        [] \<Rightarrow> []
      | x # xs \<Rightarrow> if classMatches cc x then [(Suc i, xs, c)] else [])"
| "steps (Seq a b) t = concat (map (steps b) (steps a t))"
| "steps (Quest a) t = steps a t @ [t]"
| "steps (StarLazy cc) (i, r, c) = map (\<lambda>(j, r'). (j, r', c)) (lazyRuns cc i r)"
| "steps (Star cc) (i, r, c) = map (\<lambda>(j, r'). (j, r', c)) (greedyRuns cc i r)"
| "steps (Plus cc) (i, r, c) =
     (case r of
        [] \<Rightarrow> []
      | x # xs \<Rightarrow>
          if classMatches cc x then map (\<lambda>(j, r'). (j, r', c)) (greedyRuns cc (Suc i) xs)
          else [])"
| "steps (Capture n a) (i, r, c) =
     map (\<lambda>(j, r', c'). (j, r', c'(n \<mapsto> take (j - i) r))) (steps a (i, r, c))"

fun NumSubexp :: "regexp \<Rightarrow> nat" where
  "NumSubexp (Seq a b) = NumSubexp a + NumSubexp b"
| "NumSubexp (Quest a) = NumSubexp a"
| "NumSubexp (Capture n a) = Suc (NumSubexp a)"
| "NumSubexp a = 0"

text \<open>
  The search for the leftmost match: the first thread of the leftmost start that has
  one. The result is the matched text and the groups.
\<close>

fun search :: "regexp \<Rightarrow> nat \<Rightarrow> string \<Rightarrow> (string \<times> captures) option" where
  "search re i [] =
     (case steps re (i, [], Map.empty) of
        (j, r', c) # ts \<Rightarrow> Some ([], c)
      | [] \<Rightarrow> None)"
| "search re i (x # xs) =
     (case steps re (i, x # xs, Map.empty) of
        (j, r', c) # ts \<Rightarrow> Some (take (j - i) (x # xs), c)
      | [] \<Rightarrow> search re (Suc i) xs)"

text \<open>
  \<open>FindStringSubmatch\<close>: the match and the text of every group, the empty string for
  a group that took no part; the nil slice, of length 0, when there is no match.
\<close>

definition FindStringSubmatch :: "regexp \<Rightarrow> string \<Rightarrow> string list" where
  "FindStringSubmatch re s =
     (case search re 0 s of
        None \<Rightarrow> []
      | Some (m, c) \<Rightarrow>
          m # map (\<lambda>k. case c k of None \<Rightarrow> [] | Some t \<Rightarrow> t) [1..<Suc (NumSubexp re)])"

subsection \<open>strconv.Atoi and the errors of the parsers\<close>

datatype strconv_error = ErrRange | ErrSyntax

datatype error =
    errorString string
  | NumError (Func: string) (Num: string) (Err: strconv_error)

definition isDigit :: "char \<Rightarrow> bool" where
  "isDigit c = (c \<in> set ''0123456789'')"

definition digitValue :: "char \<Rightarrow> nat" where
  "digitValue c = of_char c - 48"

text \<open>The value of a string of decimal digits.\<close>

fun decimal :: "nat \<Rightarrow> string \<Rightarrow> nat" where
  "decimal acc [] = acc"
| "decimal acc (c # cs) = decimal (acc * 10 + digitValue c) cs"

text \<open>
  \<open>strconv.Atoi\<close> with an \<open>int\<close> of 64 bits: an optional sign, then decimal digits, at
  least one; the value must fit the type.
\<close>

definition Atoi :: "string \<Rightarrow> error + int" where
  "Atoi s =
     (let neg = (s \<noteq> [] \<and> hd s = CHR ''-'');
          body = (if s \<noteq> [] \<and> (hd s = CHR ''+'' \<or> hd s = CHR ''-'') then tl s else s)
      in if body = [] \<or> \<not> list_all isDigit body then Inl (NumError ''Atoi'' s ErrSyntax)
         else if neg then
           (if decimal 0 body > 2 ^ 63 then Inl (NumError ''Atoi'' s ErrRange)
            else Inr (- int (decimal 0 body)))
         else
           (if decimal 0 body > 2 ^ 63 - 1 then Inl (NumError ''Atoi'' s ErrRange)
            else Inr (int (decimal 0 body))))"

subsection \<open>The parsers of the two flags\<close>

text \<open>\<open>^(?:(.*?)(?:\.([^\./]+))?)?\.([^\.]+)=(\d+)$\<close>\<close>

definition funcOffsetMatcher :: regexp where
  "funcOffsetMatcher =
     Seq BeginText
       (Seq (Quest (Seq (Capture 1 (StarLazy AnyCharNotNL))
                        (Quest (Seq (CharClass (Literal CHR ''.''))
                                    (Capture 2 (Plus (NotAnyOf ''./'')))))))
         (Seq (CharClass (Literal CHR ''.''))
           (Seq (Capture 3 (Plus (NotAnyOf ''.'')))
             (Seq (CharClass (Literal CHR ''=''))
               (Seq (Capture 4 (Plus PerlDigit)) EndText)))))"

text \<open>
  \<open>funcOffset.Set\<close>: the new rule table, or the error. The table holds natural
  numbers: the value stored is the value of what \<open>\d+\<close> matched.
\<close>

definition funcOffset_Set :: "funcOffset \<Rightarrow> string \<Rightarrow> error + funcOffset" where
  "funcOffset_Set offs v =
     (let m = FindStringSubmatch funcOffsetMatcher v in
      if length m \<noteq> 5
      then Inl (errorString
                 ''invalid func offset; should be of form [pkg[.type]].<func>=<offset>'')
      else
        case Atoi (m ! 4) of
          Inl err \<Rightarrow> Inl err
        | Inr val \<Rightarrow>
            Inr (offs(\<lparr>sel_pkg = m ! 1, sel_typ = m ! 2, sel_fun = m ! 3\<rparr> \<mapsto> nat val)))"

text \<open>\<open>^(.*?)\.([^\./]+)$\<close>\<close>

definition typeWhitelistMatcher :: regexp where
  "typeWhitelistMatcher =
     Seq BeginText
       (Seq (Capture 1 (StarLazy AnyCharNotNL))
         (Seq (CharClass (Literal CHR ''.''))
           (Seq (Capture 2 (Plus (NotAnyOf ''./''))) EndText)))"

definition typeWhitelist_Set :: "typeWhitelist \<Rightarrow> string \<Rightarrow> error + typeWhitelist" where
  "typeWhitelist_Set w v =
     (let m = FindStringSubmatch typeWhitelistMatcher v in
      if length m \<noteq> 3
      then Inl (errorString ''invalid type whitelist; should be of form <pkg>.<type>'')
      else Inr (w(\<lparr>wl_pkg = m ! 1, wl_typ = m ! 2\<rparr> \<mapsto> True)))"

section \<open>The grammar of the two flags, and what the proofs need\<close>

text \<open>
  The shape of a rule, \<open>[pkg[.type]].<func>=<offset>\<close>, as the documentation of the
  flag describes it: a package path \<open>p\<close>, then \<open>.t\<close> if there is a type, then \<open>.f=d\<close>.
  The path may hold any character but the newline (dots too), the type no dot and no
  slash, the function name is not empty and holds no dot, the offset is one decimal
  digit or more. No type is written \<open>t = []\<close>.
\<close>

definition ruleShape :: "string \<Rightarrow> string \<Rightarrow> string \<Rightarrow> string \<Rightarrow> string \<Rightarrow> bool" where
  "ruleShape v p t f d \<longleftrightarrow>
     v = p @ (if t = [] then [] else CHR ''.'' # t) @ CHR ''.'' # f @ CHR ''='' # d \<and>
     CHR 0x0A \<notin> set p \<and>
     CHR ''.'' \<notin> set t \<and> CHR ''/'' \<notin> set t \<and>
     f \<noteq> [] \<and> CHR ''.'' \<notin> set f \<and>
     d \<noteq> [] \<and> list_all isDigit d"

text \<open>
  The package path is not greedy: of all the ways to read a text as a rule, the parse
  is one with the shortest path.
\<close>

definition ruleParse :: "string \<Rightarrow> string \<Rightarrow> string \<Rightarrow> string \<Rightarrow> string \<Rightarrow> bool" where
  "ruleParse v p t f d \<longleftrightarrow>
     ruleShape v p t f d \<and>
     (\<forall>p' t' f' d'. ruleShape v p' t' f' d' \<longrightarrow> length p \<le> length p')"

text \<open>
  The shape of a whitelisted type, \<open><pkg>.<type>\<close>: the type is what follows the last
  dot, not empty and with no slash; the package is what precedes it, with no newline.
\<close>

definition whitelistShape :: "string \<Rightarrow> string \<Rightarrow> string \<Rightarrow> bool" where
  "whitelistShape v p t \<longleftrightarrow>
     v = p @ CHR ''.'' # t \<and> CHR 0x0A \<notin> set p \<and>
     t \<noteq> [] \<and> CHR ''.'' \<notin> set t \<and> CHR ''/'' \<notin> set t"

text \<open>
  Whether a parser returned an error.
\<close>

definition isError :: "error + 'a \<Rightarrow> bool" where
  "isError r = (case r of Inl e \<Rightarrow> True | Inr x \<Rightarrow> False)"

text \<open>
  For the proofs: the threads of a list, each continued by \<open>K\<close>; the character sets of
  the type, the function name and the offset; and the parts of the two patterns.
\<close>

definition andThen :: "thread list \<Rightarrow> (thread \<Rightarrow> thread list) \<Rightarrow> thread list" where
  "andThen ts K = concat (map K ts)"

definition okTyp :: "string \<Rightarrow> bool" where
  "okTyp t \<longleftrightarrow> t \<noteq> [] \<and> CHR ''.'' \<notin> set t \<and> CHR ''/'' \<notin> set t"

definition okFun :: "string \<Rightarrow> bool" where
  "okFun f \<longleftrightarrow> f \<noteq> [] \<and> CHR ''.'' \<notin> set f"

definition okDigits :: "string \<Rightarrow> bool" where
  "okDigits d \<longleftrightarrow> d \<noteq> [] \<and> list_all isDigit d"

definition digitsEnd :: regexp where
  "digitsEnd = Seq (Capture 4 (Plus PerlDigit)) EndText"

definition eqDigits :: regexp where
  "eqDigits = Seq (CharClass (Literal CHR ''='')) digitsEnd"

definition funTail :: regexp where
  "funTail = Seq (CharClass (Literal CHR ''.'')) (Seq (Capture 3 (Plus (NotAnyOf ''.''))) eqDigits)"

definition typPart :: regexp where
  "typPart = Seq (CharClass (Literal CHR ''.'')) (Capture 2 (Plus (NotAnyOf ''./'')))"

definition typTail :: regexp where
  "typTail = Seq (CharClass (Literal CHR ''.'')) (Seq (Capture 2 (Plus (NotAnyOf ''./''))) EndText)"

definition pkgCont :: "string \<Rightarrow> thread \<Rightarrow> thread list" where
  "pkgCont s = (\<lambda>(j, r', c').
     andThen (steps typPart (j, r', c'(1 \<mapsto> take j s))) (steps funTail)
       @ steps funTail (j, r', c'(1 \<mapsto> take j s)))"

section \<open>The packages of the analyzer's test\<close>

text \<open>
  The types and arguments of \<open>TestAnalysis\<close> (packages \<open>a\<close> and \<open>a/b\<close>, with \<open>a/b.Pairs\<close>
  assumed safe), and three arguments the test does not have: a value of the
  predeclared type \<open>error\<close>, a constant of a named integer type, and an expression
  the type checker recorded nothing for.
\<close>

definition test_string :: gotype where
  "test_string = Basic types_String ''string''"

definition test_int :: gotype where
  "test_int = Basic types_Int ''int''"

definition test_logger :: gotype where
  "test_logger = Named (TypeName (Some (Package ''a'')) ''logger'') test_int"

definition test_Pairs :: gotype where
  "test_Pairs =
     Named (TypeName (Some (Package ''a/b'')) ''Pairs'') (OtherType ''struct{values []interface{}}'')"

definition universe_error :: gotype where
  "universe_error = Named (TypeName None ''error'') (OtherType ''interface{Error() string}'')"

definition test_string_constant :: TypeAndValue where
  "test_string_constant = \<lparr>Type = Some test_string, Value = Some (constant_Value constant_String)\<rparr>"

definition test_int_constant :: TypeAndValue where
  "test_int_constant = \<lparr>Type = Some test_int, Value = Some (constant_Value constant_Int)\<rparr>"

definition lit_foo :: Expr where "lit_foo = OtherExpr 101"
definition lit_bar :: Expr where "lit_bar = OtherExpr 102"
definition lit_baz :: Expr where "lit_baz = OtherExpr 103"
definition lit_1 :: Expr where "lit_1 = OtherExpr 104"
definition var_p :: Expr where "var_p = IdentExpr (Ident 105 ''p'')"
definition var_l :: Expr where "var_l = IdentExpr (Ident 106 ''l'')"
definition var_x :: Expr where "var_x = IdentExpr (Ident 107 ''x'')"
definition var_err :: Expr where "var_err = IdentExpr (Ident 108 ''err'')"
definition untyped_arg :: Expr where "untyped_arg = OtherExpr 109"
definition const_level :: Expr where "const_level = IdentExpr (Ident 110 ''level'')"

definition test_types :: "Expr \<rightharpoonup> TypeAndValue" where
  "test_types = map_of
     [(lit_foo, test_string_constant),
      (lit_bar, test_string_constant),
      (lit_baz, test_string_constant),
      (lit_1, test_int_constant),
      (var_p, \<lparr>Type = Some (Pointer test_Pairs), Value = None\<rparr>),
      (var_l, \<lparr>Type = Some test_logger, Value = None\<rparr>),
      (var_x, \<lparr>Type = Some test_string, Value = None\<rparr>),
      (var_err, \<lparr>Type = Some universe_error, Value = None\<rparr>),
      (const_level,
        \<lparr>Type = Some (Named (TypeName (Some (Package ''a'')) ''Level'') test_int),
         Value = Some (constant_Value constant_Int)\<rparr>)]"

definition fn_X :: Expr where
  "fn_X = SelectorExpr (IdentExpr (Ident 90 ''b'')) (Ident 92 ''X'')"

definition sel_l_Log :: Expr where
  "sel_l_Log = SelectorExpr var_l (Ident 94 ''Log'')"

definition sel_err_Error :: Expr where
  "sel_err_Error = SelectorExpr var_err (Ident 96 ''Error'')"

definition test_selections :: "Expr \<rightharpoonup> Selection" where
  "test_selections = map_of
     [(sel_l_Log,
        \<lparr>Recv = test_logger,
         SelectionString = ''method (a.logger) Log(inputs ...interface{})''\<rparr>),
      (sel_err_Error,
        \<lparr>Recv = universe_error, SelectionString = ''method (error) Error() string''\<rparr>)]"

definition test_uses :: "Ident \<rightharpoonup> Object" where
  "test_uses = map_of [(Ident 90 ''b'', PkgName (Package ''a/b''))]"

definition test_pass :: Pass where
  "test_pass =
     \<lparr>TypesInfo = \<lparr>Types = test_types, Selections = test_selections, Uses = test_uses\<rparr>\<rparr>"

text \<open>The rules the test sets: \<open>.Log=0\<close>, \<open>a/b.Y.Z=0\<close>, \<open>a/b.X=1\<close>,
  \<open>a/b.NewPairs=0\<close> and \<open>a/b.Pairs.AddPairs=0\<close>.\<close>

definition test_offsets :: funcOffset where
  "test_offsets =
     [\<lparr>sel_pkg = [], sel_typ = [], sel_fun = ''Log''\<rparr> \<mapsto> 0,
      \<lparr>sel_pkg = ''a/b'', sel_typ = ''Y'', sel_fun = ''Z''\<rparr> \<mapsto> 0,
      \<lparr>sel_pkg = ''a/b'', sel_typ = [], sel_fun = ''X''\<rparr> \<mapsto> 1,
      \<lparr>sel_pkg = ''a/b'', sel_typ = [], sel_fun = ''NewPairs''\<rparr> \<mapsto> 0,
      \<lparr>sel_pkg = ''a/b'', sel_typ = ''Pairs'', sel_fun = ''AddPairs''\<rparr> \<mapsto> 0]"

text \<open>
  The calls \<open>a.Flags.Set("pair-func", v)\<close> of the test, one after the other: the table
  they leave, or the first error.
\<close>

fun setFlags :: "funcOffset \<Rightarrow> string list \<Rightarrow> error + funcOffset" where
  "setFlags offs [] = Inr offs"
| "setFlags offs (v # vs) =
     (case funcOffset_Set offs v of
        Inl err \<Rightarrow> Inl err
      | Inr offs' \<Rightarrow> setFlags offs' vs)"

definition test_whitelist :: typeWhitelist where
  "test_whitelist = [\<lparr>wl_pkg = ''a/b'', wl_typ = ''Pairs''\<rparr> \<mapsto> True]"

section \<open>The loops and the branches of argsCorrect\<close>

lemmas test_defs = test_string_def test_int_def test_logger_def test_Pairs_def universe_error_def
  test_string_constant_def test_int_constant_def lit_foo_def lit_bar_def lit_baz_def lit_1_def
  var_p_def var_l_def var_x_def var_err_def untyped_arg_def const_level_def test_types_def
  test_pass_def test_whitelist_def fn_X_def sel_l_Log_def sel_err_Error_def
  test_selections_def test_uses_def test_offsets_def TypesOf_def

lemma whitelistLoop_none:
  "list_all (\<lambda>a. isWhitelisted w p a = Inr False) as \<Longrightarrow>
   whitelistLoop w p cpos name offset i as = Inr None"
  by (induction as arbitrary: i) auto

lemma whitelistLoop_first:
  "list_all (\<lambda>a. isWhitelisted w p a = Inr False) xs \<Longrightarrow> isWhitelisted w p a = Inr True \<Longrightarrow>
   whitelistLoop w p cpos name offset i (xs @ a # ys) =
     Inr (Some \<lparr>Pos' = cpos, Message = whitelistedMessage (i + length xs + offset) name\<rparr>)"
  by (induction xs arbitrary: i) auto

lemma whitelistLoop_panic:
  "list_all (\<lambda>a. isWhitelisted w p a = Inr False) xs \<Longrightarrow> isWhitelisted w p a = Inl e \<Longrightarrow>
   whitelistLoop w p cpos name offset i (xs @ a # ys) = Inl e"
  by (induction xs arbitrary: i) auto

lemma keyLoop_append:
  "keyLoop p name offset i (xs @ ys) =
     keyLoop p name offset i xs @ keyLoop p name offset (i + length xs) ys"
  by (induction xs arbitrary: i) auto

lemma keyLoop_Cons:
  "keyLoop p name offset i (a # as) =
     (if even i then checkKey p name offset i a else []) @ keyLoop p name offset (Suc i) as"
  by (simp add: even_iff_mod_2_eq_zero)

lemma keyLoop_concat:
  "keyLoop p name offset i as =
     concat (map (\<lambda>j. if even (i + j) then checkKey p name offset (i + j) (as ! j) else [])
       [0..<length as])"
proof (induction as arbitrary: i)
  case Nil
  then show ?case by simp
next
  case (Cons a as)
  have upt: "[0..<length (a # as)] = 0 # map Suc [0..<length as]"
    by (simp add: upt_conv_Cons map_Suc_upt del: upt_Suc)
  have tl: "keyLoop p name offset (Suc i) as =
      concat (map ((\<lambda>j. if even (i + j) then checkKey p name offset (i + j) ((a # as) ! j)
        else []) \<circ> Suc) [0..<length as])"
    using Cons.IH [of "Suc i"] by (simp add: comp_def cong: if_cong)
  show ?case
    unfolding upt keyLoop_Cons tl by simp
qed


lemma isWhitelisted_registered:
  assumes "Type (TypesOf p e) = Some t"
    and "t = Named obj u \<or> t = Pointer (Named obj u)"
    and "Pkg obj = Some pk"
    and "whitelisted w \<lparr>wl_pkg = Path pk, wl_typ = ObjName obj\<rparr>"
  shows "isWhitelisted w p e = Inr True"
  using assms by (auto simp: isWhitelisted_def isWhitelistedNamed_def whitelistKey_def)

lemma isWhitelisted_untyped:
  "Type (TypesOf p e) = None \<Longrightarrow> isWhitelisted w p e = Inr False"
  by (simp add: isWhitelisted_def isWhitelistedNamed_def)

lemma argsCorrect_keys:
  assumes "drop offset args \<noteq> []"
    and "even (length (drop offset args))"
    and "list_all (\<lambda>a. isWhitelisted w p a = Inr False) (drop offset args)"
  shows "argsCorrect w p name offset (CallExpr fn args) =
           Inr (keyLoop p name offset 0 (drop offset args))"
proof -
  have gt: "\<not> length args \<le> offset" using assms(1) by simp
  have ev: "(length args - offset) mod 2 = 0"
    using assms(2) by (simp add: even_iff_mod_2_eq_zero)
  have ne1: "length args - offset \<noteq> 1" using ev by auto
  have "whitelistLoop w p (ExprPos (CallExpr fn args)) name offset 0 (drop offset args) = Inr None"
    using assms(3) by (rule whitelistLoop_none)
  then show ?thesis using gt ev ne1 by (simp add: argsCorrect_def)
qed

lemma argsCorrect_odd:
  assumes "odd (length (drop offset args))"
    and "length args = Suc offset \<Longrightarrow> isWhitelisted w p (args ! offset) = Inr False"
  shows "argsCorrect w p name offset (CallExpr fn args) =
           Inr [\<lparr>Pos' = ExprPos fn,
                 Message = itoa (length args) @ '' args passed to '' @ name @ ''; must be even''\<rparr>]"
proof -
  have od: "(length args - offset) mod 2 = Suc 0"
    using assms(1) unfolding length_drop by presburger
  then have gt: "\<not> length args \<le> offset" by auto
  show ?thesis
  proof (cases "length args - offset = 1")
    case True
    then have "length args = Suc offset" using gt by simp
    then show ?thesis using assms(2) gt od
      by (simp add: argsCorrect_def arityMessage_def)
  next
    case False
    then show ?thesis using gt od by (simp add: argsCorrect_def arityMessage_def)
  qed
qed

lemma argsCorrect_whitelisted:
  assumes "drop offset args = xs @ a # ys"
    and "even (length (drop offset args))"
    and "list_all (\<lambda>x. isWhitelisted w p x = Inr False) xs"
    and "isWhitelisted w p a = Inr True"
  shows "argsCorrect w p name offset (CallExpr fn args) =
           Inr [\<lparr>Pos' = ExprPos fn, Message = whitelistedMessage (length xs + offset) name\<rparr>]"
proof -
  have gt: "\<not> length args \<le> offset" using assms(1) by auto
  have ev: "(length args - offset) mod 2 = 0"
    using assms(2) by (simp add: even_iff_mod_2_eq_zero)
  have ne1: "length args - offset \<noteq> 1" using ev by auto
  have "whitelistLoop w p (ExprPos (CallExpr fn args)) name offset 0 (drop offset args) =
      Inr (Some \<lparr>Pos' = ExprPos (CallExpr fn args),
        Message = whitelistedMessage (0 + length xs + offset) name\<rparr>)"
    unfolding assms(1) using assms(3,4) by (rule whitelistLoop_first)
  then show ?thesis using gt ev ne1 by (simp add: argsCorrect_def)
qed

lemma argsCorrect_whitelist_panic:
  assumes "drop offset args = xs @ a # ys"
    and "even (length (drop offset args))"
    and "list_all (\<lambda>x. isWhitelisted w p x = Inr False) xs"
    and "isWhitelisted w p a = Inl e"
  shows "argsCorrect w p name offset (CallExpr fn args) = Inl e"
proof -
  have gt: "\<not> length args \<le> offset" using assms(1) by auto
  have ev: "(length args - offset) mod 2 = 0"
    using assms(2) by (simp add: even_iff_mod_2_eq_zero)
  have ne1: "length args - offset \<noteq> 1" using ev by auto
  have "whitelistLoop w p (ExprPos (CallExpr fn args)) name offset 0 (drop offset args) = Inl e"
    unfolding assms(1) using assms(3,4) by (rule whitelistLoop_panic)
  then show ?thesis using gt ev ne1 by (simp add: argsCorrect_def)
qed

subsection \<open>The branches of the visitor on a method call\<close>

lemma visitNode_generic:
  assumes "Selections (TypesInfo p) (SelectorExpr x sel) = Some nv"
    and "Recv nv = Named obj u"
    and "offsets \<lparr>sel_pkg = [], sel_typ = [], sel_fun = IdentName sel\<rparr> = Some offset"
  shows "visitNode offsets w p (CallExpr (SelectorExpr x sel) args) =
           argsCorrect w p (SelectionString nv) offset (CallExpr (SelectorExpr x sel) args)"
  using assms by (simp add: visitNode_def)

lemma visitNode_concrete:
  assumes "Selections (TypesInfo p) (SelectorExpr x sel) = Some nv"
    and "Recv nv = Named obj u"
    and "offsets \<lparr>sel_pkg = [], sel_typ = [], sel_fun = IdentName sel\<rparr> = None"
    and "Pkg obj = Some pk"
  shows "visitNode offsets w p (CallExpr (SelectorExpr x sel) args) =
           (case offsets \<lparr>sel_pkg = Path pk, sel_typ = ObjName obj, sel_fun = IdentName sel\<rparr> of
              None \<Rightarrow> Inr []
            | Some offset \<Rightarrow>
                argsCorrect w p (SelectionString nv) offset (CallExpr (SelectorExpr x sel) args))"
  using assms by (simp add: visitNode_def)

lemma visitNode_universe_receiver:
  assumes "Selections (TypesInfo p) (SelectorExpr x sel) = Some nv"
    and "Recv nv = Named obj u"
    and "offsets \<lparr>sel_pkg = [], sel_typ = [], sel_fun = IdentName sel\<rparr> = None"
    and "Pkg obj = None"
  shows "visitNode offsets w p (CallExpr (SelectorExpr x sel) args) = Inl NilDereference"
  using assms by (simp add: visitNode_def)

section \<open>The matcher\<close>

subsection \<open>Threads and continuations\<close>

lemma andThen_Nil [simp]: "andThen [] K = []"
  by (simp add: andThen_def)

lemma andThen_single [simp]: "andThen [t] K = K t"
  by (simp add: andThen_def)

lemma andThen_append: "andThen (ts @ us) K = andThen ts K @ andThen us K"
  by (simp add: andThen_def)

lemma andThen_assoc: "andThen (andThen ts K) K' = andThen ts (\<lambda>t. andThen (K t) K')"
  by (induction ts) (simp_all add: andThen_def)

lemma andThen_Seq:
  "andThen (steps (Seq a b) t) K = andThen (steps a t) (\<lambda>t'. andThen (steps b t') K)"
  by (simp add: andThen_assoc [symmetric]) (simp add: andThen_def)

lemma andThen_Quest: "andThen (steps (Quest a) t) K = andThen (steps a t) K @ K t"
  by (simp add: andThen_append)

lemma andThen_CharClass:
  "andThen (steps (CharClass cc) (i, r, c)) K =
     (case r of [] \<Rightarrow> [] | x # xs \<Rightarrow> if classMatches cc x then K (Suc i, xs, c) else [])"
  by (simp split: list.splits)

lemma andThen_Capture:
  "andThen (steps (Capture n a) (i, r, c)) K =
     andThen (steps a (i, r, c)) (\<lambda>(j, r', c'). K (j, r', c'(n \<mapsto> take (j - i) r)))"
  by (simp add: andThen_def comp_def case_prod_unfold)

lemma andThen_StarLazy_Cons:
  "andThen (steps (StarLazy cc) (i, x # xs, c)) K =
     K (i, x # xs, c) @
       (if classMatches cc x then andThen (steps (StarLazy cc) (Suc i, xs, c)) K else [])"
  by (simp add: andThen_def)

lemma andThen_Star_Cons:
  "andThen (steps (Star cc) (i, x # xs, c)) K =
     (if classMatches cc x then andThen (steps (Star cc) (Suc i, xs, c)) K else [])
       @ K (i, x # xs, c)"
  by (simp add: andThen_def)

lemma andThen_Plus:
  "andThen (steps (Plus cc) (i, r, c)) K =
     (case r of
        [] \<Rightarrow> []
      | x # xs \<Rightarrow> if classMatches cc x then andThen (steps (Star cc) (Suc i, xs, c)) K else [])"
  by (simp add: andThen_def split: list.splits)

subsection \<open>The repetitions\<close>

lemma Star_sound:
  "andThen (steps (Star cc) (i, r, c)) K \<noteq> [] \<Longrightarrow>
   \<exists>u v. r = u @ v \<and> list_all (classMatches cc) u \<and> K (i + length u, v, c) \<noteq> []"
proof (induction r arbitrary: i)
  case Nil
  then show ?case by simp
next
  case (Cons x xs)
  show ?case
  proof (cases "K (i, x # xs, c) = []")
    case False
    then have "x # xs = [] @ x # xs \<and> list_all (classMatches cc) [] \<and>
        K (i + length ([]::string), x # xs, c) \<noteq> []" by simp
    then show ?thesis by blast
  next
    case True
    with Cons.prems have cm: "classMatches cc x"
      and ne: "andThen (steps (Star cc) (Suc i, xs, c)) K \<noteq> []"
      by (auto simp: andThen_Star_Cons simp del: steps.simps split: if_splits)
    from Cons.IH [OF ne] obtain u v where
      "xs = u @ v" "list_all (classMatches cc) u" "K (Suc i + length u, v, c) \<noteq> []" by blast
    with cm have "x # xs = (x # u) @ v \<and> list_all (classMatches cc) (x # u) \<and>
        K (i + length (x # u), v, c) \<noteq> []" by simp
    then show ?thesis by blast
  qed
qed

lemma StarLazy_sound:
  "andThen (steps (StarLazy cc) (i, r, c)) K \<noteq> [] \<Longrightarrow>
   \<exists>u v. r = u @ v \<and> list_all (classMatches cc) u \<and> K (i + length u, v, c) \<noteq> []"
proof (induction r arbitrary: i)
  case Nil
  then show ?case by simp
next
  case (Cons x xs)
  show ?case
  proof (cases "K (i, x # xs, c) = []")
    case False
    then have "x # xs = [] @ x # xs \<and> list_all (classMatches cc) [] \<and>
        K (i + length ([]::string), x # xs, c) \<noteq> []" by simp
    then show ?thesis by blast
  next
    case True
    with Cons.prems have cm: "classMatches cc x"
      and ne: "andThen (steps (StarLazy cc) (Suc i, xs, c)) K \<noteq> []"
      by (auto simp: andThen_StarLazy_Cons simp del: steps.simps split: if_splits)
    from Cons.IH [OF ne] obtain u v where
      "xs = u @ v" "list_all (classMatches cc) u" "K (Suc i + length u, v, c) \<noteq> []" by blast
    with cm have "x # xs = (x # u) @ v \<and> list_all (classMatches cc) (x # u) \<and>
        K (i + length (x # u), v, c) \<noteq> []" by simp
    then show ?thesis by blast
  qed
qed

lemma Plus_sound:
  assumes "andThen (steps (Plus cc) (i, r, c)) K \<noteq> []"
  shows "\<exists>u v. r = u @ v \<and> u \<noteq> [] \<and> list_all (classMatches cc) u \<and>
           K (i + length u, v, c) \<noteq> []"
proof -
  from assms obtain x xs where r: "r = x # xs" and cm: "classMatches cc x"
    and ne: "andThen (steps (Star cc) (Suc i, xs, c)) K \<noteq> []"
    by (auto simp: andThen_Plus simp del: steps.simps split: list.splits if_splits)
  from Star_sound [OF ne] obtain u v where
    "xs = u @ v" "list_all (classMatches cc) u" "K (Suc i + length u, v, c) \<noteq> []" by blast
  with r cm have "r = (x # u) @ v \<and> x # u \<noteq> [] \<and> list_all (classMatches cc) (x # u) \<and>
      K (i + length (x # u), v, c) \<noteq> []" by simp
  then show ?thesis by blast
qed

lemma Star_split:
  "list_all (classMatches cc) u \<Longrightarrow>
   \<exists>ts. andThen (steps (Star cc) (i, u @ v, c)) K =
     andThen (steps (Star cc) (i + length u, v, c)) K @ ts"
proof (induction u arbitrary: i)
  case Nil
  then show ?case by simp
next
  case (Cons x u)
  from Cons.prems have "list_all (classMatches cc) u" by simp
  from Cons.IH [OF this, of "Suc i"] obtain ts where
    "andThen (steps (Star cc) (Suc i, u @ v, c)) K =
       andThen (steps (Star cc) (Suc i + length u, v, c)) K @ ts"
    by blast
  with Cons.prems show ?case
    by (simp add: andThen_Star_Cons del: steps.simps)
qed

lemma Plus_split:
  assumes "u \<noteq> []" and "list_all (classMatches cc) u"
  shows "\<exists>ts. andThen (steps (Plus cc) (i, u @ v, c)) K =
     andThen (steps (Star cc) (i + length u, v, c)) K @ ts"
proof -
  from assms obtain x u' where u: "u = x # u'" by (cases u) auto
  with assms(2) have "classMatches cc x" "list_all (classMatches cc) u'" by simp_all
  with Star_split [of cc u' "Suc i" v c K] u show ?thesis
    by (simp add: andThen_Plus del: steps.simps)
qed

lemma StarLazy_skip:
  "list_all (classMatches cc) u \<Longrightarrow>
   (\<And>k. k < length u \<Longrightarrow> K (i + k, drop k (u @ v), c) = []) \<Longrightarrow>
   andThen (steps (StarLazy cc) (i, u @ v, c)) K =
     andThen (steps (StarLazy cc) (i + length u, v, c)) K"
proof (induction u arbitrary: i)
  case Nil
  then show ?case by simp
next
  case (Cons x u)
  have first: "K (i, (x # u) @ v, c) = []" using Cons.prems(2) [of 0] by simp
  have rest: "K (Suc i + k, drop k (u @ v), c) = []" if "k < length u" for k
    using Cons.prems(2) [of "Suc k"] that by simp
  have "andThen (steps (StarLazy cc) (Suc i, u @ v, c)) K =
      andThen (steps (StarLazy cc) (Suc i + length u, v, c)) K"
    using Cons.IH [of "Suc i"] Cons.prems(1) rest by simp
  then show ?case using Cons.prems(1) first
    by (simp add: andThen_StarLazy_Cons del: steps.simps)
qed

lemma StarLazy_here:
  "\<exists>ts. andThen (steps (StarLazy cc) (i, v, c)) K = K (i, v, c) @ ts"
proof (cases v)
  case Nil
  have "andThen (steps (StarLazy cc) (i, [], c)) K = K (i, [], c) @ []" by simp
  with Nil show ?thesis by blast
next
  case (Cons x xs)
  then show ?thesis by (simp add: andThen_StarLazy_Cons del: steps.simps)
qed

subsection \<open>The parts of the pattern of a rule\<close>

lemma all_NotAnyOf: "list_all (classMatches (NotAnyOf xs)) t \<longleftrightarrow> set t \<inter> set xs = {}"
  by (induction t) auto

lemma all_AnyCharNotNL: "list_all (classMatches AnyCharNotNL) p \<longleftrightarrow> CHR 0x0A \<notin> set p"
  by (induction p) auto

lemma all_PerlDigit: "list_all (classMatches PerlDigit) d \<longleftrightarrow> list_all isDigit d"
  by (induction d) (auto simp: isDigit_def)

lemma digits_no_dot: "list_all isDigit d \<Longrightarrow> CHR ''.'' \<notin> set d"
  by (induction d) (auto simp: isDigit_def)

lemma digits_no_eq: "list_all isDigit d \<Longrightarrow> CHR ''='' \<notin> set d"
  by (induction d) (auto simp: isDigit_def)

lemma split_unique:
  "a @ x # b = a' @ x # b' \<Longrightarrow> x \<notin> set b \<Longrightarrow> x \<notin> set b' \<Longrightarrow> a = a' \<and> b = b'"
proof (induction a arbitrary: a')
  case Nil
  then show ?case by (cases a') auto
next
  case (Cons y a)
  then show ?case by (cases a') auto
qed

lemma funcOffsetMatcher_parts:
  "funcOffsetMatcher =
     Seq BeginText
       (Seq (Quest (Seq (Capture 1 (StarLazy AnyCharNotNL)) (Quest typPart))) funTail)"
  by (simp add: funcOffsetMatcher_def funTail_def typPart_def eqDigits_def digitsEnd_def)

lemma Star_to_end:
  "andThen (steps (Star cc) (i, r, c)) (\<lambda>(j, r', c'). if r' = [] then H j c' else []) =
     (if list_all (classMatches cc) r then H (i + length r) c else [])"
proof (induction r arbitrary: i)
  case Nil
  then show ?case by simp
next
  case (Cons x xs)
  show ?case
    unfolding andThen_Star_Cons using Cons.IH [of "Suc i"] by simp
qed

lemma Plus_to_end:
  "steps (Seq (Capture n (Plus cc)) EndText) (i, r, c) =
     (if r \<noteq> [] \<and> list_all (classMatches cc) r then [(i + length r, [], c(n \<mapsto> r))] else [])"
proof -
  have "steps (Seq (Capture n (Plus cc)) EndText) (i, r, c) =
      andThen (steps (Capture n (Plus cc)) (i, r, c)) (steps EndText)"
    by (simp add: andThen_def)
  also have "\<dots> = andThen (steps (Plus cc) (i, r, c))
        (\<lambda>(j, r', c'). steps EndText (j, r', c'(n \<mapsto> take (j - i) r)))"
    by (rule andThen_Capture)
  also have "\<dots> = andThen (steps (Plus cc) (i, r, c))
        (\<lambda>(j, r', c'). if r' = [] then [(j, [], c'(n \<mapsto> take (j - i) r))] else [])"
    by (rule arg_cong [where f = "andThen (steps (Plus cc) (i, r, c))"]) (auto simp: fun_eq_iff)
  also have "\<dots> = (if r \<noteq> [] \<and> list_all (classMatches cc) r
      then [(i + length r, [], c(n \<mapsto> r))] else [])"
  proof (cases r)
    case Nil
    then show ?thesis by simp
  next
    case (Cons x xs)
    show ?thesis
      unfolding andThen_Plus Cons
      using Star_to_end [of cc "Suc i" xs c "\<lambda>j c'. [(j, [], c'(n \<mapsto> take (j - i) (x # xs)))]"]
      by simp
  qed
  finally show ?thesis .
qed

lemma eqDigits_steps:
  "steps eqDigits (i, r, c) =
     (case r of
        [] \<Rightarrow> []
      | x # d \<Rightarrow> if x = CHR ''='' \<and> okDigits d then [(i + length r, [], c(4 \<mapsto> d))] else [])"
proof -
  have "steps eqDigits (i, r, c) = andThen (steps (CharClass (Literal CHR ''='')) (i, r, c))
      (steps digitsEnd)"
    unfolding eqDigits_def by (simp add: andThen_def)
  also have "\<dots> = (case r of
        [] \<Rightarrow> []
      | x # d \<Rightarrow> if x = CHR ''='' \<and> okDigits d then [(i + length r, [], c(4 \<mapsto> d))] else [])"
    unfolding andThen_CharClass digitsEnd_def Plus_to_end
    by (simp add: okDigits_def all_PerlDigit split: list.splits)
  finally show ?thesis .
qed

lemma funTail_steps:
  "steps funTail (i, r, c) =
     (case r of
        [] \<Rightarrow> []
      | x # b \<Rightarrow>
          if x = CHR ''.''
          then andThen (steps (Plus (NotAnyOf ''.'')) (Suc i, b, c))
                 (\<lambda>(j, r', c'). steps eqDigits (j, r', c'(3 \<mapsto> take (j - Suc i) b)))
          else [])"
proof -
  have "steps funTail (i, r, c) =
      andThen (steps (CharClass (Literal CHR ''.'')) (i, r, c))
        (\<lambda>t. andThen (steps (Capture 3 (Plus (NotAnyOf ''.''))) t) (steps eqDigits))"
    unfolding funTail_def
    by (simp add: andThen_def cong: list.case_cong if_cong split: list.splits)
  then show ?thesis
    unfolding andThen_CharClass by (simp add: andThen_Capture del: steps.simps split: list.splits)
qed

lemma funTail_sound:
  assumes "steps funTail (i, r, c) \<noteq> []"
  shows "\<exists>F D. r = CHR ''.'' # F @ CHR ''='' # D \<and> okFun F \<and> okDigits D"
proof -
  from assms obtain b where r: "r = CHR ''.'' # b"
    and ne: "andThen (steps (Plus (NotAnyOf ''.'')) (Suc i, b, c))
       (\<lambda>(j, r', c'). steps eqDigits (j, r', c'(3 \<mapsto> take (j - Suc i) b))) \<noteq> []"
    unfolding funTail_steps by (auto split: list.splits if_splits)
  from Plus_sound [OF ne] obtain u v where b: "b = u @ v" and u: "u \<noteq> []"
    and all: "list_all (classMatches (NotAnyOf ''.'')) u"
    and fire: "steps eqDigits (Suc i + length u, v,
        c(3 \<mapsto> take (Suc i + length u - Suc i) b)) \<noteq> []"
    by auto
  from fire obtain D where v: "v = CHR ''='' # D" and D: "okDigits D"
    unfolding eqDigits_steps by (auto split: list.splits if_splits)
  from all have "CHR ''.'' \<notin> set u" by (simp add: all_NotAnyOf)
  with u have "okFun u" by (simp add: okFun_def)
  with r b v D show ?thesis by auto
qed

lemma eqDigits_in_digits:
  assumes "list_all isDigit d"
  shows "andThen (steps (Star cc) (i, d, c)) (\<lambda>(j, r', c'). steps eqDigits (j, r', g j c')) = []"
proof (rule ccontr)
  assume "andThen (steps (Star cc) (i, d, c)) (\<lambda>(j, r', c'). steps eqDigits (j, r', g j c')) \<noteq> []"
  from Star_sound [OF this] obtain u v where d: "d = u @ v"
    and fire: "steps eqDigits (i + length u, v, g (i + length u) c) \<noteq> []" by auto
  from fire obtain D where "v = CHR ''='' # D"
    unfolding eqDigits_steps by (auto split: list.splits if_splits)
  with d have "CHR ''='' \<in> set d" by simp
  with digits_no_eq [OF assms] show False by simp
qed

lemma funTail_first:
  assumes "okFun F" and "okDigits D"
  shows "\<exists>ts. steps funTail (i, CHR ''.'' # F @ CHR ''='' # D, c) =
           (i + length F + length D + 2, [], c(3 \<mapsto> F, 4 \<mapsto> D)) # ts"
proof -
  let ?K = "\<lambda>(j, r', c'). steps eqDigits (j, r', c'(3 \<mapsto> take (j - Suc i) (F @ CHR ''='' # D)))"
  from assms(1) have F: "F \<noteq> []" "list_all (classMatches (NotAnyOf ''.'')) F"
    by (simp_all add: okFun_def all_NotAnyOf)
  from assms(2) have D: "list_all isDigit D" by (simp add: okDigits_def)
  from Plus_split [OF F, of "Suc i" "CHR ''='' # D" c ?K] obtain ts where
    "andThen (steps (Plus (NotAnyOf ''.'')) (Suc i, F @ CHR ''='' # D, c)) ?K =
       andThen (steps (Star (NotAnyOf ''.'')) (Suc i + length F, CHR ''='' # D, c)) ?K @ ts"
    by blast
  moreover have "andThen (steps (Star (NotAnyOf ''.'')) (Suc i + length F, CHR ''='' # D, c)) ?K =
      ?K (Suc i + length F, CHR ''='' # D, c)"
    unfolding andThen_Star_Cons using eqDigits_in_digits [OF D] by simp
  moreover have "?K (Suc i + length F, CHR ''='' # D, c) =
      [(i + length F + length D + 2, [], c(3 \<mapsto> F, 4 \<mapsto> D))]"
    using assms(2) by (simp add: eqDigits_steps)
  ultimately show ?thesis
    unfolding funTail_steps by simp
qed

lemma typFun_steps:
  "andThen (steps typPart (i, r, c)) K =
     (case r of
        [] \<Rightarrow> []
      | x # b \<Rightarrow>
          if x = CHR ''.''
          then andThen (steps (Plus (NotAnyOf ''./'')) (Suc i, b, c))
                 (\<lambda>(j, r', c'). K (j, r', c'(2 \<mapsto> take (j - Suc i) b)))
          else [])"
  unfolding typPart_def andThen_Seq andThen_CharClass
  by (simp add: andThen_Capture del: steps.simps split: list.splits)

lemma typFun_sound:
  assumes "andThen (steps typPart (i, r, c)) (steps funTail) \<noteq> []"
  shows "\<exists>T F D. r = CHR ''.'' # T @ CHR ''.'' # F @ CHR ''='' # D \<and>
           okTyp T \<and> okFun F \<and> okDigits D"
proof -
  from assms obtain b where r: "r = CHR ''.'' # b"
    and ne: "andThen (steps (Plus (NotAnyOf ''./'')) (Suc i, b, c))
       (\<lambda>(j, r', c'). steps funTail (j, r', c'(2 \<mapsto> take (j - Suc i) b))) \<noteq> []"
    unfolding typFun_steps by (auto split: list.splits if_splits)
  from Plus_sound [OF ne] obtain u v where b: "b = u @ v" and u: "u \<noteq> []"
    and all: "list_all (classMatches (NotAnyOf ''./'')) u"
    and fire: "steps funTail (Suc i + length u, v,
        c(2 \<mapsto> take (Suc i + length u - Suc i) b)) \<noteq> []"
    by auto
  from funTail_sound [OF fire] obtain F D where
    v: "v = CHR ''.'' # F @ CHR ''='' # D" and FD: "okFun F" "okDigits D" by blast
  from all u have "okTyp u" by (auto simp: okTyp_def all_NotAnyOf)
  with r b v FD show ?thesis by auto
qed

lemma typFun_first:
  assumes "okTyp T" and "okFun F" and "okDigits D"
  shows "\<exists>ts. andThen (steps typPart (i, CHR ''.'' # T @ CHR ''.'' # F @ CHR ''='' # D, c))
             (steps funTail) =
           (i + length T + length F + length D + 3, [], c(2 \<mapsto> T, 3 \<mapsto> F, 4 \<mapsto> D)) # ts"
proof -
  let ?tl = "CHR ''.'' # F @ CHR ''='' # D"
  let ?K = "\<lambda>(j, r', c'). steps funTail (j, r', c'(2 \<mapsto> take (j - Suc i) (T @ ?tl)))"
  from assms(1) have T: "T \<noteq> []" "list_all (classMatches (NotAnyOf ''./'')) T"
    by (auto simp: okTyp_def all_NotAnyOf)
  from Plus_split [OF T, of "Suc i" ?tl c ?K] obtain ts where
    "andThen (steps (Plus (NotAnyOf ''./'')) (Suc i, T @ ?tl, c)) ?K =
       andThen (steps (Star (NotAnyOf ''./'')) (Suc i + length T, ?tl, c)) ?K @ ts"
    by blast
  moreover have "andThen (steps (Star (NotAnyOf ''./'')) (Suc i + length T, ?tl, c)) ?K =
      ?K (Suc i + length T, ?tl, c)"
    unfolding andThen_Star_Cons by simp
  moreover from funTail_first [OF assms(2,3), of "Suc i + length T" "c(2 \<mapsto> T)"]
  obtain ts' where "?K (Suc i + length T, ?tl, c) =
      (i + length T + length F + length D + 3, [], c(2 \<mapsto> T, 3 \<mapsto> F, 4 \<mapsto> D)) # ts'"
    by auto
  ultimately show ?thesis
    unfolding typFun_steps by simp
qed

subsection \<open>The first thread of the pattern of a rule\<close>

lemma funcOffsetMatcher_steps:
  "steps funcOffsetMatcher (0, s, c) =
     andThen (steps (StarLazy AnyCharNotNL) (0, s, c)) (pkgCont s) @ steps funTail (0, s, c)"
proof -
  let ?pkg = "Seq (Capture 1 (StarLazy AnyCharNotNL)) (Quest typPart)"
  have "steps funcOffsetMatcher (0, s, c) = andThen (steps (Quest ?pkg) (0, s, c)) (steps funTail)"
    unfolding funcOffsetMatcher_parts by (simp add: andThen_def)
  also have "\<dots> = andThen (steps ?pkg (0, s, c)) (steps funTail) @ steps funTail (0, s, c)"
    by (rule andThen_Quest)
  also have "andThen (steps ?pkg (0, s, c)) (steps funTail) =
      andThen (steps (Capture 1 (StarLazy AnyCharNotNL)) (0, s, c))
        (\<lambda>t. andThen (steps (Quest typPart) t) (steps funTail))"
    by (rule andThen_Seq)
  also have "\<dots> = andThen (steps (StarLazy AnyCharNotNL) (0, s, c))
        (\<lambda>(j, r', c'). andThen (steps (Quest typPart) (j, r', c'(1 \<mapsto> take (j - 0) s)))
           (steps funTail))"
    by (rule andThen_Capture)
  also have "(\<lambda>(j, r', c'). andThen (steps (Quest typPart) (j, r', c'(1 \<mapsto> take (j - 0) s)))
           (steps funTail)) = pkgCont s"
    by (simp add: pkgCont_def fun_eq_iff andThen_Quest del: steps.simps)
  finally show ?thesis .
qed

lemma pkgCont_sound:
  assumes "pkgCont s (j, x # r, c) \<noteq> []"
  shows "x = CHR ''.'' \<and>
    ((\<exists>F D. r = F @ CHR ''='' # D \<and> okFun F \<and> okDigits D) \<or>
     (\<exists>T F D. r = T @ CHR ''.'' # F @ CHR ''='' # D \<and> okTyp T \<and> okFun F \<and> okDigits D))"
proof -
  from assms consider
      "andThen (steps typPart (j, x # r, c(1 \<mapsto> take j s))) (steps funTail) \<noteq> []"
    | "steps funTail (j, x # r, c(1 \<mapsto> take j s)) \<noteq> []"
    by (auto simp: pkgCont_def simp del: steps.simps)
  then show ?thesis
  proof cases
    case 1
    from typFun_sound [OF 1] show ?thesis by auto
  next
    case 2
    from funTail_sound [OF 2] show ?thesis by auto
  qed
qed

lemma funcOffset_first_typed:
  assumes nl: "CHR 0x0A \<notin> set p" and T: "okTyp T" and F: "okFun F" and D: "okDigits D"
    and s: "s = p @ CHR ''.'' # T @ CHR ''.'' # F @ CHR ''='' # D"
  shows "\<exists>ts. steps funcOffsetMatcher (0, s, Map.empty) =
           (length s, [], [1 \<mapsto> p, 2 \<mapsto> T, 3 \<mapsto> F, 4 \<mapsto> D]) # ts"
proof -
  let ?v = "CHR ''.'' # T @ CHR ''.'' # F @ CHR ''='' # D"
  have FD: "CHR ''.'' \<notin> set (F @ CHR ''='' # D)"
    using F D digits_no_dot [of D] by (auto simp: okFun_def okDigits_def)
  have nofire: "pkgCont s (0 + k, drop k (p @ ?v), Map.empty) = []" if k: "k < length p" for k
  proof (rule ccontr)
    assume ne: "pkgCont s (0 + k, drop k (p @ ?v), Map.empty) \<noteq> []"
    from k obtain x q where q: "drop k p = x # q" by (cases "drop k p") auto
    with k have dr: "drop k (p @ ?v) = x # (q @ ?v)" by simp
    from pkgCont_sound [OF ne [unfolded dr]] consider
        F' D' where "q @ ?v = F' @ CHR ''='' # D'" "okFun F'" "okDigits D'"
      | T' F' D' where "q @ ?v = T' @ CHR ''.'' # F' @ CHR ''='' # D'" "okTyp T'"
          "okFun F'" "okDigits D'"
      by blast
    then show False
    proof cases
      case 1
      then have "CHR ''.'' \<notin> set (q @ ?v)"
        using digits_no_dot [of D'] by (auto simp: okFun_def okDigits_def)
      then show False by simp
    next
      case 2
      then have "CHR ''.'' \<notin> set (F' @ CHR ''='' # D')"
        using digits_no_dot [of D'] by (auto simp: okFun_def okDigits_def)
      with split_unique [of "q @ CHR ''.'' # T" "CHR ''.''" "F @ CHR ''='' # D" T'
          "F' @ CHR ''='' # D'"] 2(1) FD
      have "q @ CHR ''.'' # T = T'" by simp
      then have "CHR ''.'' \<in> set T'" by auto
      with 2(2) show False by (simp add: okTyp_def)
    qed
  qed
  have "andThen (steps (StarLazy AnyCharNotNL) (0, p @ ?v, Map.empty)) (pkgCont s) =
      andThen (steps (StarLazy AnyCharNotNL) (0 + length p, ?v, Map.empty)) (pkgCont s)"
    using nl nofire by (intro StarLazy_skip) (simp_all add: all_AnyCharNotNL)
  moreover obtain ts where
    "andThen (steps (StarLazy AnyCharNotNL) (0 + length p, ?v, Map.empty)) (pkgCont s) =
       pkgCont s (0 + length p, ?v, Map.empty) @ ts"
    using StarLazy_here by blast
  moreover obtain ts' where
    "andThen (steps typPart (length p, ?v, [1 \<mapsto> p])) (steps funTail) =
      (length p + length T + length F + length D + 3, [], [1 \<mapsto> p, 2 \<mapsto> T, 3 \<mapsto> F, 4 \<mapsto> D])
        # ts'"
    using typFun_first [OF T F D] by blast
  ultimately show ?thesis
    unfolding funcOffsetMatcher_steps by (simp add: s pkgCont_def del: steps.simps)
qed

lemma funcOffset_first_untyped:
  assumes nl: "CHR 0x0A \<notin> set p" and F: "okFun F" and D: "okDigits D"
    and s: "s = p @ CHR ''.'' # F @ CHR ''='' # D"
    and untyped: "\<And>a b. p = a @ CHR ''.'' # b \<Longrightarrow> \<not> okTyp b"
  shows "\<exists>ts. steps funcOffsetMatcher (0, s, Map.empty) =
           (length s, [], [1 \<mapsto> p, 3 \<mapsto> F, 4 \<mapsto> D]) # ts"
proof -
  let ?v = "CHR ''.'' # F @ CHR ''='' # D"
  have FD: "CHR ''.'' \<notin> set (F @ CHR ''='' # D)"
    using F D digits_no_dot [of D] by (auto simp: okFun_def okDigits_def)
  have nofire: "pkgCont s (0 + k, drop k (p @ ?v), Map.empty) = []" if k: "k < length p" for k
  proof (rule ccontr)
    assume ne: "pkgCont s (0 + k, drop k (p @ ?v), Map.empty) \<noteq> []"
    from k obtain x q where q: "drop k p = x # q" by (cases "drop k p") auto
    with k have dr: "drop k (p @ ?v) = x # (q @ ?v)" by simp
    from pkgCont_sound [OF ne [unfolded dr]] have x: "x = CHR ''.''" by simp
    from pkgCont_sound [OF ne [unfolded dr]] consider
        F' D' where "q @ ?v = F' @ CHR ''='' # D'" "okFun F'" "okDigits D'"
      | T' F' D' where "q @ ?v = T' @ CHR ''.'' # F' @ CHR ''='' # D'" "okTyp T'"
          "okFun F'" "okDigits D'"
      by blast
    then show False
    proof cases
      case 1
      then have "CHR ''.'' \<notin> set (q @ ?v)"
        using digits_no_dot [of D'] by (auto simp: okFun_def okDigits_def)
      then show False by simp
    next
      case 2
      then have "CHR ''.'' \<notin> set (F' @ CHR ''='' # D')"
        using digits_no_dot [of D'] by (auto simp: okFun_def okDigits_def)
      with split_unique [of q "CHR ''.''" "F @ CHR ''='' # D" T' "F' @ CHR ''='' # D'"] 2(1) FD
      have "q = T'" by simp
      moreover have "p = take k p @ CHR ''.'' # q"
        using q x by (metis append_take_drop_id)
      ultimately show False using untyped 2(2) by blast
    qed
  qed
  have "andThen (steps (StarLazy AnyCharNotNL) (0, p @ ?v, Map.empty)) (pkgCont s) =
      andThen (steps (StarLazy AnyCharNotNL) (0 + length p, ?v, Map.empty)) (pkgCont s)"
    using nl nofire by (intro StarLazy_skip) (simp_all add: all_AnyCharNotNL)
  moreover obtain ts where
    "andThen (steps (StarLazy AnyCharNotNL) (0 + length p, ?v, Map.empty)) (pkgCont s) =
       pkgCont s (0 + length p, ?v, Map.empty) @ ts"
    using StarLazy_here by blast
  moreover have "andThen (steps typPart (length p, ?v, [1 \<mapsto> p])) (steps funTail) = []"
  proof (rule ccontr)
    assume "andThen (steps typPart (length p, ?v, [1 \<mapsto> p])) (steps funTail) \<noteq> []"
    from typFun_sound [OF this] obtain T' F' D' where
      "F @ CHR ''='' # D = T' @ CHR ''.'' # F' @ CHR ''='' # D'" by auto
    then have "CHR ''.'' \<in> set (F @ CHR ''='' # D)" by (metis in_set_conv_decomp)
    with FD show False by simp
  qed
  moreover obtain ts' where
    "steps funTail (length p, ?v, [1 \<mapsto> p]) =
      (length p + length F + length D + 2, [], [1 \<mapsto> p, 3 \<mapsto> F, 4 \<mapsto> D]) # ts'"
    using funTail_first [OF F D] by blast
  ultimately show ?thesis
    unfolding funcOffsetMatcher_steps by (simp add: s pkgCont_def del: steps.simps)
qed

lemma funcOffset_sound:
  assumes "steps funcOffsetMatcher (0, s, c) \<noteq> []"
  shows "\<exists>p T F D. s = p @ (if T = [] then [] else CHR ''.'' # T) @ CHR ''.'' # F @ CHR ''='' # D \<and>
           CHR 0x0A \<notin> set p \<and> (T = [] \<or> okTyp T) \<and> okFun F \<and> okDigits D"
proof -
  from assms consider
      "andThen (steps (StarLazy AnyCharNotNL) (0, s, c)) (pkgCont s) \<noteq> []"
    | "steps funTail (0, s, c) \<noteq> []"
    unfolding funcOffsetMatcher_steps by auto
  then show ?thesis
  proof cases
    case 1
    from StarLazy_sound [OF 1] obtain u v where uv: "s = u @ v"
      and u: "list_all (classMatches AnyCharNotNL) u"
      and fire: "pkgCont s (0 + length u, v, c) \<noteq> []" by blast
    from fire obtain x r where v: "v = x # r"
      by (cases v) (auto simp: pkgCont_def typFun_steps funTail_steps simp del: steps.simps)
    from pkgCont_sound [OF fire [unfolded v]] have x: "x = CHR ''.''" by simp
    from pkgCont_sound [OF fire [unfolded v]] consider
        F D where "r = F @ CHR ''='' # D" "okFun F" "okDigits D"
      | T F D where "r = T @ CHR ''.'' # F @ CHR ''='' # D" "okTyp T" "okFun F" "okDigits D"
      by blast
    then show ?thesis
    proof cases
      case 1
      with uv v x u have "s = u @ (if ([]::string) = [] then [] else CHR ''.'' # []) @ CHR ''.'' # F
          @ CHR ''='' # D \<and> CHR 0x0A \<notin> set u \<and> (([]::string) = [] \<or> okTyp []) \<and> okFun F
          \<and> okDigits D"
        by (simp add: all_AnyCharNotNL)
      then show ?thesis by blast
    next
      case 2
      then have "T \<noteq> []" by (simp add: okTyp_def)
      with 2 uv v x u have "s = u @ (if T = [] then [] else CHR ''.'' # T) @ CHR ''.'' # F
          @ CHR ''='' # D \<and> CHR 0x0A \<notin> set u \<and> (T = [] \<or> okTyp T) \<and> okFun F \<and> okDigits D"
        by (simp add: all_AnyCharNotNL)
      then show ?thesis by blast
    qed
  next
    case 2
    from funTail_sound [OF 2] obtain F D where
      "s = CHR ''.'' # F @ CHR ''='' # D" "okFun F" "okDigits D" by blast
    then have "s = [] @ (if ([]::string) = [] then [] else CHR ''.'' # []) @ CHR ''.'' # F
        @ CHR ''='' # D \<and> CHR 0x0A \<notin> set ([]::string) \<and> (([]::string) = [] \<or> okTyp [])
        \<and> okFun F \<and> okDigits D"
      by simp
    then show ?thesis by blast
  qed
qed

subsection \<open>The search and the conversion of the offset\<close>

lemma search_anchored: "0 < i \<Longrightarrow> search (Seq BeginText re) i r = None"
  by (induction r arbitrary: i) simp_all

lemma FindStringSubmatch_first:
  assumes "steps re (0, s, Map.empty) = (length s, r', c) # ts"
  shows "FindStringSubmatch re s =
           s # map (\<lambda>k. case c k of None \<Rightarrow> [] | Some t \<Rightarrow> t) [1..<Suc (NumSubexp re)]"
proof (cases s)
  case Nil
  with assms show ?thesis by (simp add: FindStringSubmatch_def del: steps.simps upt_Suc)
next
  case (Cons x xs)
  with assms have "search re 0 s = Some (s, c)" by (simp del: steps.simps)
  then show ?thesis by (simp add: FindStringSubmatch_def del: steps.simps upt_Suc)
qed

lemma FindStringSubmatch_none:
  assumes "steps (Seq BeginText re) (0, s, Map.empty) = []"
  shows "FindStringSubmatch (Seq BeginText re) s = []"
proof -
  have "search (Seq BeginText re) 0 s = None"
    using assms by (cases s) (simp_all add: search_anchored del: steps.simps)
  then show ?thesis by (simp add: FindStringSubmatch_def)
qed

lemma groups_1_to_4: "[1..<Suc 4] = [1, 2, 3, 4]"
  by (simp add: upt_rec)

lemma groups_1_to_2: "[1..<Suc 2] = [1, 2]"
  by (simp add: upt_rec)

lemma NumSubexp_funcOffsetMatcher: "NumSubexp funcOffsetMatcher = 4"
  by (simp add: funcOffsetMatcher_def)

lemma NumSubexp_typeWhitelistMatcher: "NumSubexp typeWhitelistMatcher = 2"
  by (simp add: typeWhitelistMatcher_def)

lemma Atoi_digits:
  assumes "okDigits d"
  shows "Atoi d = (if decimal 0 d < 2 ^ 63 then Inr (int (decimal 0 d))
                   else Inl (NumError ''Atoi'' d ErrRange))"
proof -
  from assms obtain x xs where d: "d = x # xs" and x: "isDigit x"
    by (cases d) (auto simp: okDigits_def)
  from x have "x \<noteq> CHR ''+''" "x \<noteq> CHR ''-''" by (auto simp: isDigit_def)
  moreover have "(2::nat) ^ 63 - 1 < n \<longleftrightarrow> \<not> n < 2 ^ 63" for n :: nat by auto
  ultimately show ?thesis using assms d
    by (simp add: Atoi_def okDigits_def)
qed

subsection \<open>funcOffset.Set against the shape of a rule\<close>

lemma ruleShape_tail:
  assumes "ruleShape v p t f d" and "ruleShape v p' t' f' d'"
  shows "f = f' \<and> d = d' \<and>
     p @ (if t = [] then [] else CHR ''.'' # t) = p' @ (if t' = [] then [] else CHR ''.'' # t')"
proof -
  let ?P = "p @ (if t = [] then [] else CHR ''.'' # t)"
  let ?P' = "p' @ (if t' = [] then [] else CHR ''.'' # t')"
  from assms have eq: "?P @ CHR ''.'' # (f @ CHR ''='' # d) = ?P' @ CHR ''.'' # (f' @ CHR ''='' # d')"
    by (simp add: ruleShape_def)
  from assms have nd: "CHR ''.'' \<notin> set (f @ CHR ''='' # d)" "CHR ''.'' \<notin> set (f' @ CHR ''='' # d')"
    using digits_no_dot [of d] digits_no_dot [of d'] by (auto simp: ruleShape_def)
  from split_unique [OF eq nd] have P: "?P = ?P'" and tl: "f @ CHR ''='' # d = f' @ CHR ''='' # d'"
    by simp_all
  from assms have "CHR ''='' \<notin> set d" "CHR ''='' \<notin> set d'"
    using digits_no_eq [of d] digits_no_eq [of d'] by (auto simp: ruleShape_def)
  from split_unique [OF tl this] P show ?thesis by simp
qed

lemma ruleParse_typed:
  assumes "ruleShape v p t f d" and "t \<noteq> []"
  shows "ruleParse v p t f d"
  unfolding ruleParse_def
proof (intro conjI allI impI)
  fix p' t' f' d'
  assume other: "ruleShape v p' t' f' d'"
  from ruleShape_tail [OF assms(1) other] assms(2)
  have eq: "p @ CHR ''.'' # t = p' @ (if t' = [] then [] else CHR ''.'' # t')" by simp
  show "length p \<le> length p'"
  proof (cases "t' = []")
    case True
    with eq have "p' = p @ CHR ''.'' # t" by simp
    then show ?thesis by simp
  next
    case False
    with eq have "p @ CHR ''.'' # t = p' @ CHR ''.'' # t'" by simp
    from split_unique [OF this] assms(1) other show ?thesis by (simp add: ruleShape_def)
  qed
qed (rule assms(1))

lemma ruleParse_untyped:
  assumes "ruleShape v p [] f d" and "\<And>a b. p = a @ CHR ''.'' # b \<Longrightarrow> \<not> okTyp b"
  shows "ruleParse v p [] f d"
  unfolding ruleParse_def
proof (intro conjI allI impI)
  fix p' t' f' d'
  assume other: "ruleShape v p' t' f' d'"
  from ruleShape_tail [OF assms(1) other]
  have eq: "p = p' @ (if t' = [] then [] else CHR ''.'' # t')" by simp
  show "length p \<le> length p'"
  proof (cases "t' = []")
    case True
    with eq show ?thesis by simp
  next
    case False
    with eq have "p = p' @ CHR ''.'' # t'" by simp
    moreover from other False have "okTyp t'" by (simp add: ruleShape_def okTyp_def)
    ultimately show ?thesis using assms(2) by blast
  qed
qed (rule assms(1))

lemma ruleParse_cases:
  assumes "ruleParse v p t f d"
  shows "t \<noteq> [] \<or> (\<forall>a b. p = a @ CHR ''.'' # b \<longrightarrow> \<not> okTyp b)"
proof (rule ccontr)
  assume "\<not> ?thesis"
  then obtain a b where t: "t = []" and p: "p = a @ CHR ''.'' # b" and b: "okTyp b" by blast
  from assms have sh: "ruleShape v p t f d" by (simp add: ruleParse_def)
  with t p b have "ruleShape v a b f d" by (simp add: ruleShape_def okTyp_def)
  with assms have "length p \<le> length a" unfolding ruleParse_def by blast
  with p show False by simp
qed

lemma ruleShape_parse:
  assumes "ruleShape v p t f d"
  shows "\<exists>p' t'. ruleParse v p' t' f d"
proof (cases "t \<noteq> []")
  case True
  with assms show ?thesis using ruleParse_typed by blast
next
  case t: False
  show ?thesis
  proof (cases "\<exists>a b. p = a @ CHR ''.'' # b \<and> okTyp b")
    case True
    then obtain a b where p: "p = a @ CHR ''.'' # b" and b: "okTyp b" by blast
    with assms t have "ruleShape v a b f d" by (simp add: ruleShape_def okTyp_def)
    moreover from b have "b \<noteq> []" by (simp add: okTyp_def)
    ultimately show ?thesis using ruleParse_typed by blast
  next
    case False
    with assms t have "ruleParse v p [] f d" by (intro ruleParse_untyped) auto
    then show ?thesis by blast
  qed
qed

lemma FindStringSubmatch_rule:
  assumes "ruleParse v p t f d"
  shows "FindStringSubmatch funcOffsetMatcher v = [v, p, t, f, d]"
proof -
  from assms have sh: "ruleShape v p t f d" by (simp add: ruleParse_def)
  then have F: "okFun f" and D: "okDigits d" and nl: "CHR 0x0A \<notin> set p"
    by (simp_all add: ruleShape_def okFun_def okDigits_def)
  show ?thesis
  proof (cases "t = []")
    case True
    with ruleParse_cases [OF assms] have "\<And>a b. p = a @ CHR ''.'' # b \<Longrightarrow> \<not> okTyp b" by blast
    moreover from sh True have "v = p @ CHR ''.'' # f @ CHR ''='' # d" by (simp add: ruleShape_def)
    ultimately obtain ts where
      "steps funcOffsetMatcher (0, v, Map.empty) = (length v, [], [1 \<mapsto> p, 3 \<mapsto> f, 4 \<mapsto> d]) # ts"
      using funcOffset_first_untyped [OF nl F D] by blast
    from FindStringSubmatch_first [OF this]
    have "FindStringSubmatch funcOffsetMatcher v =
        v # map (\<lambda>k. case [1 \<mapsto> p, 3 \<mapsto> f, 4 \<mapsto> d] k of None \<Rightarrow> [] | Some t \<Rightarrow> t) [1::nat, 2, 3, 4]"
      unfolding NumSubexp_funcOffsetMatcher groups_1_to_4 .
    with True show ?thesis by simp
  next
    case False
    with sh have "okTyp t" and "v = p @ CHR ''.'' # t @ CHR ''.'' # f @ CHR ''='' # d"
      by (simp_all add: ruleShape_def okTyp_def)
    then obtain ts where
      "steps funcOffsetMatcher (0, v, Map.empty) =
         (length v, [], [1 \<mapsto> p, 2 \<mapsto> t, 3 \<mapsto> f, 4 \<mapsto> d]) # ts"
      using funcOffset_first_typed [OF nl _ F D] by blast
    from FindStringSubmatch_first [OF this]
    have "FindStringSubmatch funcOffsetMatcher v =
        v # map (\<lambda>k. case [1 \<mapsto> p, 2 \<mapsto> t, 3 \<mapsto> f, 4 \<mapsto> d] k of None \<Rightarrow> [] | Some t \<Rightarrow> t)
          [1::nat, 2, 3, 4]"
      unfolding NumSubexp_funcOffsetMatcher groups_1_to_4 .
    then show ?thesis by simp
  qed
qed

lemma FindStringSubmatch_no_rule:
  assumes "\<not> (\<exists>p t f d. ruleShape v p t f d)"
  shows "FindStringSubmatch funcOffsetMatcher v = []"
proof -
  have "steps funcOffsetMatcher (0, v, Map.empty) = []"
  proof (rule ccontr)
    assume "steps funcOffsetMatcher (0, v, Map.empty) \<noteq> []"
    from funcOffset_sound [OF this] obtain p T F D where
      "v = p @ (if T = [] then [] else CHR ''.'' # T) @ CHR ''.'' # F @ CHR ''='' # D"
      "CHR 0x0A \<notin> set p" "T = [] \<or> okTyp T" "okFun F" "okDigits D" by blast
    then have "ruleShape v p T F D"
      by (auto simp: ruleShape_def okTyp_def okFun_def okDigits_def)
    with assms show False by blast
  qed
  then show ?thesis
    unfolding funcOffsetMatcher_def by (rule FindStringSubmatch_none)
qed

lemma funcOffset_Set_rule:
  assumes "ruleParse v p t f d"
  shows "funcOffset_Set offs v =
     (if decimal 0 d < 2 ^ 63
      then Inr (offs(\<lparr>sel_pkg = p, sel_typ = t, sel_fun = f\<rparr> \<mapsto> decimal 0 d))
      else Inl (NumError ''Atoi'' d ErrRange))"
proof -
  from assms have "okDigits d" by (simp add: ruleParse_def ruleShape_def okDigits_def)
  note a = Atoi_digits [OF this]
  have m: "FindStringSubmatch funcOffsetMatcher v = [v, p, t, f, d]"
    using assms by (rule FindStringSubmatch_rule)
  have n: "[v, p, t, f, d] ! 1 = p" "[v, p, t, f, d] ! 2 = t" "[v, p, t, f, d] ! 3 = f"
    "[v, p, t, f, d] ! 4 = d" "length [v, p, t, f, d] = 5"
    by simp_all
  show ?thesis
    unfolding funcOffset_Set_def m Let_def n a by simp
qed

lemma funcOffset_Set_no_rule:
  assumes "\<not> (\<exists>p t f d. ruleShape v p t f d)"
  shows "funcOffset_Set offs v =
     Inl (errorString ''invalid func offset; should be of form [pkg[.type]].<func>=<offset>'')"
  by (simp add: funcOffset_Set_def FindStringSubmatch_no_rule [OF assms])

lemma ruleShape_digits:
  assumes "ruleShape v p t f d" and "ruleShape v p' t' f' d'"
  shows "d' = d"
  using ruleShape_tail [OF assms] by simp

lemma funcOffset_Set_error:
  "isError (funcOffset_Set offs v) \<longleftrightarrow>
     \<not> (\<exists>p t f d. ruleShape v p t f d \<and> decimal 0 d < 2 ^ 63)"
proof (cases "\<exists>p t f d. ruleShape v p t f d")
  case False
  then show ?thesis using funcOffset_Set_no_rule [of v offs] by (auto simp: isError_def)
next
  case True
  then obtain p t f d where sh: "ruleShape v p t f d" by blast
  from ruleShape_parse [OF sh] obtain p' t' where pa: "ruleParse v p' t' f d" by blast
  have "(\<exists>p t f d. ruleShape v p t f d \<and> decimal 0 d < 2 ^ 63) \<longleftrightarrow> decimal 0 d < 2 ^ 63"
    using sh ruleShape_digits [OF sh] by blast
  then show ?thesis
    unfolding funcOffset_Set_rule [OF pa] by (simp add: isError_def)
qed

subsection \<open>typeWhitelist.Set against the shape of a whitelisted type\<close>

lemma typTail_steps:
  "steps typTail (i, r, c) =
     (case r of
        [] \<Rightarrow> []
      | x # t \<Rightarrow> if x = CHR ''.'' \<and> okTyp t then [(i + length r, [], c(2 \<mapsto> t))] else [])"
proof -
  have "steps typTail (i, r, c) = andThen (steps (CharClass (Literal CHR ''.'')) (i, r, c))
      (steps (Seq (Capture 2 (Plus (NotAnyOf ''./''))) EndText))"
    unfolding typTail_def by (simp add: andThen_def)
  also have "\<dots> = (case r of
        [] \<Rightarrow> []
      | x # t \<Rightarrow> if x = CHR ''.'' \<and> okTyp t then [(i + length r, [], c(2 \<mapsto> t))] else [])"
    unfolding andThen_CharClass Plus_to_end
    by (auto simp: okTyp_def all_NotAnyOf split: list.splits)
  finally show ?thesis .
qed

lemma typeWhitelistMatcher_steps:
  "steps typeWhitelistMatcher (0, s, c) =
     andThen (steps (StarLazy AnyCharNotNL) (0, s, c))
       (\<lambda>(j, r', c'). steps typTail (j, r', c'(1 \<mapsto> take j s)))"
proof -
  have "steps typeWhitelistMatcher (0, s, c) =
      andThen (steps (Capture 1 (StarLazy AnyCharNotNL)) (0, s, c)) (steps typTail)"
    unfolding typeWhitelistMatcher_def typTail_def by (simp add: andThen_def)
  also have "\<dots> = andThen (steps (StarLazy AnyCharNotNL) (0, s, c))
       (\<lambda>(j, r', c'). steps typTail (j, r', c'(1 \<mapsto> take (j - 0) s)))"
    by (rule andThen_Capture)
  finally show ?thesis by simp
qed

lemma typeWhitelist_first:
  assumes "whitelistShape s p t"
  shows "\<exists>ts. steps typeWhitelistMatcher (0, s, Map.empty) =
           (length s, [], [1 \<mapsto> p, 2 \<mapsto> t]) # ts"
proof -
  let ?K = "\<lambda>(j, r', c'). steps typTail (j, r', c'(1 \<mapsto> take j s))"
  let ?v = "CHR ''.'' # t"
  from assms have s: "s = p @ ?v" and nl: "CHR 0x0A \<notin> set p" and t: "okTyp t"
    by (simp_all add: whitelistShape_def okTyp_def)
  have nofire: "?K (0 + k, drop k (p @ ?v), Map.empty) = []" if k: "k < length p" for k
  proof -
    from k obtain x q where q: "drop k p = x # q" by (cases "drop k p") auto
    with k have dr: "drop k (p @ ?v) = x # (q @ ?v)" by simp
    have "\<not> okTyp (q @ ?v)" by (simp add: okTyp_def)
    then show ?thesis unfolding dr by (simp add: typTail_steps)
  qed
  have "andThen (steps (StarLazy AnyCharNotNL) (0, p @ ?v, Map.empty)) ?K =
      andThen (steps (StarLazy AnyCharNotNL) (0 + length p, ?v, Map.empty)) ?K"
    using nl nofire by (intro StarLazy_skip) (simp_all add: all_AnyCharNotNL)
  moreover obtain ts where
    "andThen (steps (StarLazy AnyCharNotNL) (0 + length p, ?v, Map.empty)) ?K =
       ?K (0 + length p, ?v, Map.empty) @ ts"
    using StarLazy_here by blast
  ultimately show ?thesis
    unfolding typeWhitelistMatcher_steps using t by (simp add: s typTail_steps)
qed

lemma typeWhitelist_sound:
  assumes "steps typeWhitelistMatcher (0, s, c) \<noteq> []"
  shows "\<exists>p t. whitelistShape s p t"
proof -
  from StarLazy_sound [OF assms [unfolded typeWhitelistMatcher_steps]] obtain u v where
    uv: "s = u @ v" and u: "list_all (classMatches AnyCharNotNL) u"
    and fire: "steps typTail (0 + length u, v, c(1 \<mapsto> take (0 + length u) s)) \<noteq> []"
    by auto
  from fire obtain t where "v = CHR ''.'' # t" "okTyp t"
    unfolding typTail_steps by (auto split: list.splits if_splits)
  with uv u have "whitelistShape s u t"
    by (simp add: whitelistShape_def okTyp_def all_AnyCharNotNL)
  then show ?thesis by blast
qed

lemma typeWhitelist_Set_shape:
  assumes "whitelistShape v p t"
  shows "typeWhitelist_Set w v = Inr (w(\<lparr>wl_pkg = p, wl_typ = t\<rparr> \<mapsto> True))"
proof -
  from typeWhitelist_first [OF assms] obtain ts where
    "steps typeWhitelistMatcher (0, v, Map.empty) = (length v, [], [1 \<mapsto> p, 2 \<mapsto> t]) # ts"
    by blast
  from FindStringSubmatch_first [OF this]
  have "FindStringSubmatch typeWhitelistMatcher v =
      v # map (\<lambda>k. case [1 \<mapsto> p, 2 \<mapsto> t] k of None \<Rightarrow> [] | Some t \<Rightarrow> t) [1::nat, 2]"
    unfolding NumSubexp_typeWhitelistMatcher groups_1_to_2 .
  then have m: "FindStringSubmatch typeWhitelistMatcher v = [v, p, t]" by simp
  show ?thesis unfolding typeWhitelist_Set_def m Let_def by simp
qed

lemma typeWhitelist_Set_no_shape:
  assumes "\<not> (\<exists>p t. whitelistShape v p t)"
  shows "typeWhitelist_Set w v =
     Inl (errorString ''invalid type whitelist; should be of form <pkg>.<type>'')"
proof -
  have "steps typeWhitelistMatcher (0, v, Map.empty) = []"
    using typeWhitelist_sound assms by blast
  then have "FindStringSubmatch typeWhitelistMatcher v = []"
    unfolding typeWhitelistMatcher_def by (rule FindStringSubmatch_none)
  then show ?thesis by (simp add: typeWhitelist_Set_def)
qed

section \<open>The analyzer's test, run on the model\<close>

lemmas parse_defs = funcOffset_Set_def typeWhitelist_Set_def FindStringSubmatch_def
  funcOffsetMatcher_def typeWhitelistMatcher_def Atoi_def isDigit_def digitValue_def

text \<open>The flags of the test give the rule table and the whitelist used here.\<close>

lemma TestAnalysis_flags:
  "setFlags Map.empty
     [''.Log=0'', ''a/b.Y.Z=0'', ''a/b.X=1'', ''a/b.NewPairs=0'', ''a/b.Pairs.AddPairs=0''] =
     Inr test_offsets"
  by (simp add: parse_defs test_offsets_def)

lemma TestAnalysis_whitelist:
  "typeWhitelist_Set Map.empty ''a/b.Pairs'' = Inr test_whitelist"
  by (simp add: parse_defs test_whitelist_def)

text \<open>
  The calls of the test with the diagnostics it wants: the model reports, for each,
  the messages of the \<open>want\<close> comments (with the regexp escapes removed) and nothing
  on the calls without comment.
\<close>

lemmas run_defs = visitNode_def argsCorrect_def isWhitelisted_def isWhitelistedNamed_def
  whitelistKey_def whitelisted_def checkKey_def arityMessage_def whitelistedMessage_def
  constantMessage_def expressionMessage_def TypeString_def itoa.simps digit_def test_defs

lemma TestAnalysis_Log_odd:
  "visitNode test_offsets test_whitelist test_pass (CallExpr sel_l_Log [lit_foo, lit_bar, lit_baz]) =
     Inr [\<lparr>Pos' = 106,
           Message = ''3 args passed to method (a.logger) Log(inputs ...interface{}); must be even''\<rparr>]"
  by (simp add: run_defs)

lemma TestAnalysis_Log_constant:
  "visitNode test_offsets test_whitelist test_pass (CallExpr sel_l_Log [lit_1, lit_bar]) =
     Inr [\<lparr>Pos' = 104,
           Message = ''arg 0 to method (a.logger) Log(inputs ...interface{}) is constant int but should be a constant string''\<rparr>]"
  by (simp add: run_defs)

lemma TestAnalysis_Log_expression:
  "visitNode test_offsets test_whitelist test_pass (CallExpr sel_l_Log [var_l, lit_bar]) =
     Inr [\<lparr>Pos' = 106,
           Message = ''arg 0 to method (a.logger) Log(inputs ...interface{}) is expression a.logger but should be a constant string''\<rparr>]"
  by (simp add: run_defs)

lemma TestAnalysis_Log_pairs:
  "visitNode test_offsets test_whitelist test_pass
     (CallExpr sel_l_Log [lit_foo, lit_1, lit_bar, lit_baz]) = Inr []"
  by (simp add: run_defs)

lemma TestAnalysis_Log_whitelisted:
  "visitNode test_offsets test_whitelist test_pass (CallExpr sel_l_Log [var_p]) = Inr []"
  by (simp add: run_defs)

lemma TestAnalysis_X_odd:
  "visitNode test_offsets test_whitelist test_pass (CallExpr fn_X [lit_foo, lit_bar]) =
     Inr [\<lparr>Pos' = 90, Message = ''2 args passed to a/b.X; must be even''\<rparr>]"
  by (simp add: run_defs)

lemma TestAnalysis_X_constant:
  "visitNode test_offsets test_whitelist test_pass (CallExpr fn_X [lit_foo, lit_1, lit_bar]) =
     Inr [\<lparr>Pos' = 104,
           Message = ''arg 1 to a/b.X is constant int but should be a constant string''\<rparr>]"
  by (simp add: run_defs)

lemma TestAnalysis_X_variable:
  "visitNode test_offsets test_whitelist test_pass (CallExpr fn_X [lit_foo, var_x, lit_bar]) =
     Inr []"
  by (simp add: run_defs)

lemma TestAnalysis_X_whitelisted:
  "visitNode test_offsets test_whitelist test_pass (CallExpr fn_X [lit_foo, var_p]) = Inr []"
  by (simp add: run_defs)

lemma TestAnalysis_X_mixed:
  "visitNode test_offsets test_whitelist test_pass (CallExpr fn_X [lit_foo, lit_bar, var_p]) =
     Inr [\<lparr>Pos' = 90,
           Message = ''arg 2 to a/b.X is a whitelisted type; should pass one or none''\<rparr>]"
  by (simp add: run_defs)

section \<open>The claims about the validation of a call\<close>

text \<open>
  C7. A matched call with no more arguments than the offset of its rule has no
  argument to check: \<open>argsCorrect\<close> reports nothing and does not panic, for every
  whitelist, name and typing information.
\<close>

theorem C7_no_relevant_arguments:
  assumes "length args \<le> offset"
  shows "argsCorrect w p name offset (CallExpr fn args) = Inr []"
  using assms by (simp add: argsCorrect_def)

theorem C7_no_relevant_arguments_witness:
  "length [OtherExpr 5, OtherExpr 9] \<le> (3::nat) \<and>
   argsCorrect Map.empty \<lparr>TypesInfo = \<lparr>Types = Map.empty, Selections = Map.empty,
       Uses = Map.empty\<rparr>\<rparr> ''a/b.X'' 3
     (CallExpr (OtherExpr 1) [OtherExpr 5, OtherExpr 9]) = Inr []"
proof -
  have h: "length [OtherExpr 5, OtherExpr 9] \<le> (3::nat)" by simp
  show ?thesis using h C7_no_relevant_arguments [OF h] by simp
qed

text \<open>
  C2. A matched call with exactly one argument after the offset, whose static type
  is a named type or a pointer to a named type registered in the whitelist, gets no
  diagnostic, although one argument is an odd number of them.
\<close>

theorem C2_single_whitelisted_argument:
  assumes "length args = offset + 1"
    and "Type (TypesOf p (args ! offset)) = Some t"
    and "t = Named obj u \<or> t = Pointer (Named obj u)"
    and "Pkg obj = Some pk"
    and "whitelisted w \<lparr>wl_pkg = Path pk, wl_typ = ObjName obj\<rparr>"
  shows "argsCorrect w p name offset (CallExpr fn args) = Inr []"
proof -
  have "isWhitelisted w p (args ! offset) = Inr True"
    using assms(2-5) by (rule isWhitelisted_registered)
  then show ?thesis using assms(1) by (simp add: argsCorrect_def)
qed

theorem C2_single_whitelisted_argument_witness:
  "argsCorrect test_whitelist test_pass ''a/b.X'' 1 (CallExpr fn_X [lit_foo, var_p]) = Inr []"
  by (rule C2_single_whitelisted_argument [where t = "Pointer test_Pairs"
        and obj = "TypeName (Some (Package ''a/b'')) ''Pairs''"
        and u = "OtherType ''struct{values []interface{}}''" and pk = "Package ''a/b''"])
     (simp_all add: test_defs whitelisted_def)

text \<open>
  C1 (the analyzer panics where the claim promises a diagnostic). With one argument
  after the offset \<open>argsCorrect\<close> asks \<open>isWhitelisted\<close> first. For an argument of
  the predeclared type \<open>error\<close>, a named type with no package, that test panics in
  \<open>named.Obj().Pkg().Path()\<close>: the call \<open>l.Log(err)\<close> under the rule \<open>.Log=0\<close>
  gets no arity diagnostic. Lemma \<open>argsCorrect_odd\<close> is the claim for the calls where
  the test returns.
\<close>

theorem C1_single_error_argument_panics:
  "visitNode test_offsets test_whitelist test_pass (CallExpr sel_l_Log [var_err]) =
     Inl NilDereference \<and>
   argsCorrect test_whitelist test_pass ''method (a.logger) Log(inputs ...interface{})'' 0
     (CallExpr sel_l_Log [var_err]) = Inl NilDereference"
  by (simp add: visitNode_def argsCorrect_def isWhitelisted_def isWhitelistedNamed_def
      whitelistKey_def test_defs)

text \<open>
  C3, as stated, fails: with three arguments after the offset, one of them of the
  whitelisted type, the arity test comes first and the only diagnostic is the arity
  diagnostic (\<open>b.X("foo", "k", "v", p)\<close> under \<open>a/b.X=1\<close>).
\<close>

theorem C3_counterexample:
  "argsCorrect test_whitelist test_pass ''a/b.X'' 1
     (CallExpr fn_X [lit_foo, lit_bar, lit_baz, var_p]) =
   Inr [\<lparr>Pos' = 90, Message = ''4 args passed to a/b.X; must be even''\<rparr>]"
  by (simp add: argsCorrect_def arityMessage_def itoa.simps digit_def test_defs)

text \<open>
  C3, amended. A matched call with an even number of arguments after the offset,
  where the first argument whose whitelist test succeeds is of a registered type
  (the test returning false on every argument before it), gets exactly one
  diagnostic, the whitelist diagnostic for that argument, with its index in the full
  argument list. A matched call with an odd number of arguments after the offset,
  more than one, gets exactly one diagnostic, the arity diagnostic with the number
  of all its arguments, whatever the types of the arguments are: the arity test
  comes before the whitelist loop, and no whitelist test runs.
\<close>

theorem C3_whitelisted_among_pairs:
  "(drop offset args = xs @ a # ys \<and>
    even (length (drop offset args)) \<and>
    list_all (\<lambda>x. isWhitelisted w p x = Inr False) xs \<and>
    Type (TypesOf p a) = Some t \<and>
    (t = Named obj u \<or> t = Pointer (Named obj u)) \<and>
    Pkg obj = Some pk \<and>
    whitelisted w \<lparr>wl_pkg = Path pk, wl_typ = ObjName obj\<rparr> \<longrightarrow>
      argsCorrect w p name offset (CallExpr fn args) =
        Inr [\<lparr>Pos' = ExprPos fn,
              Message = ''arg '' @ itoa (length xs + offset) @ '' to '' @ name
                @ '' is a whitelisted type; should pass one or none''\<rparr>]) \<and>
   (odd (length (drop offset args)) \<and> 1 < length (drop offset args) \<longrightarrow>
      argsCorrect w p name offset (CallExpr fn args) =
        Inr [\<lparr>Pos' = ExprPos fn,
              Message = itoa (length args) @ '' args passed to '' @ name
                @ ''; must be even''\<rparr>])"
proof (intro conjI impI)
  assume h: "drop offset args = xs @ a # ys \<and>
    even (length (drop offset args)) \<and>
    list_all (\<lambda>x. isWhitelisted w p x = Inr False) xs \<and>
    Type (TypesOf p a) = Some t \<and>
    (t = Named obj u \<or> t = Pointer (Named obj u)) \<and>
    Pkg obj = Some pk \<and>
    whitelisted w \<lparr>wl_pkg = Path pk, wl_typ = ObjName obj\<rparr>"
  then have "isWhitelisted w p a = Inr True"
    by (intro isWhitelisted_registered [where t = t and obj = obj and u = u and pk = pk])
       blast+
  moreover from h have "drop offset args = xs @ a # ys"
    and "even (length (drop offset args))"
    and "list_all (\<lambda>x. isWhitelisted w p x = Inr False) xs"
    by blast+
  ultimately have "argsCorrect w p name offset (CallExpr fn args) =
      Inr [\<lparr>Pos' = ExprPos fn, Message = whitelistedMessage (length xs + offset) name\<rparr>]"
    by (intro argsCorrect_whitelisted)
  then show "argsCorrect w p name offset (CallExpr fn args) =
      Inr [\<lparr>Pos' = ExprPos fn,
            Message = ''arg '' @ itoa (length xs + offset) @ '' to '' @ name
              @ '' is a whitelisted type; should pass one or none''\<rparr>]"
    by (simp add: whitelistedMessage_def)
next
  assume h: "odd (length (drop offset args)) \<and> 1 < length (drop offset args)"
  then have "length args \<noteq> Suc offset" by auto
  moreover from h have "odd (length (drop offset args))" by blast
  ultimately show "argsCorrect w p name offset (CallExpr fn args) =
      Inr [\<lparr>Pos' = ExprPos fn,
            Message = itoa (length args) @ '' args passed to '' @ name
              @ ''; must be even''\<rparr>]"
    by (intro argsCorrect_odd) simp_all
qed

theorem C3_whitelisted_among_pairs_witness:
  "argsCorrect test_whitelist test_pass ''a/b.X'' 1 (CallExpr fn_X [lit_foo, lit_bar, var_p]) =
     Inr [\<lparr>Pos' = 90,
           Message = ''arg 2 to a/b.X is a whitelisted type; should pass one or none''\<rparr>] \<and>
   argsCorrect test_whitelist test_pass ''a/b.X'' 1
       (CallExpr fn_X [lit_foo, var_p, lit_bar, lit_baz]) =
     Inr [\<lparr>Pos' = 90, Message = ''4 args passed to a/b.X; must be even''\<rparr>]"
proof -
  have pairs: "drop 1 [lit_foo, lit_bar, var_p] = [lit_bar] @ var_p # [] \<and>
    even (length (drop 1 [lit_foo, lit_bar, var_p])) \<and>
    list_all (\<lambda>x. isWhitelisted test_whitelist test_pass x = Inr False) [lit_bar] \<and>
    Type (TypesOf test_pass var_p) = Some (Pointer test_Pairs) \<and>
    (Pointer test_Pairs =
       Named (TypeName (Some (Package ''a/b'')) ''Pairs'')
         (OtherType ''struct{values []interface{}}'') \<or>
     Pointer test_Pairs =
       Pointer (Named (TypeName (Some (Package ''a/b'')) ''Pairs'')
         (OtherType ''struct{values []interface{}}''))) \<and>
    Pkg (TypeName (Some (Package ''a/b'')) ''Pairs'') = Some (Package ''a/b'') \<and>
    whitelisted test_whitelist
      \<lparr>wl_pkg = Path (Package ''a/b''),
       wl_typ = ObjName (TypeName (Some (Package ''a/b'')) ''Pairs'')\<rparr>"
    by (simp add: test_defs whitelisted_def isWhitelisted_def isWhitelistedNamed_def)
  have odd3: "odd (length (drop 1 [lit_foo, var_p, lit_bar, lit_baz])) \<and>
    1 < length (drop 1 [lit_foo, var_p, lit_bar, lit_baz])"
    by simp
  have "argsCorrect test_whitelist test_pass ''a/b.X'' 1 (CallExpr fn_X [lit_foo, lit_bar, var_p]) =
      Inr [\<lparr>Pos' = ExprPos fn_X,
            Message = ''arg '' @ itoa (length [lit_bar] + 1) @ '' to '' @ ''a/b.X''
              @ '' is a whitelisted type; should pass one or none''\<rparr>]"
    using C3_whitelisted_among_pairs [of 1 "[lit_foo, lit_bar, var_p]" "[lit_bar]" var_p "[]"
        test_whitelist test_pass "Pointer test_Pairs"
        "TypeName (Some (Package ''a/b'')) ''Pairs''"
        "OtherType ''struct{values []interface{}}''" "Package ''a/b''" "''a/b.X''" fn_X]
      pairs by blast
  moreover have "argsCorrect test_whitelist test_pass ''a/b.X'' 1
      (CallExpr fn_X [lit_foo, var_p, lit_bar, lit_baz]) =
      Inr [\<lparr>Pos' = ExprPos fn_X,
            Message = itoa (length [lit_foo, var_p, lit_bar, lit_baz]) @ '' args passed to ''
              @ ''a/b.X'' @ ''; must be even''\<rparr>]"
    using C3_whitelisted_among_pairs [of 1 "[lit_foo, var_p, lit_bar, lit_baz]" _ _ _
        test_whitelist test_pass _ _ _ _ "''a/b.X''" fn_X]
      odd3 by blast
  ultimately show ?thesis by (simp add: itoa.simps digit_def fn_X_def)
qed

text \<open>
  C4 (the analyzer panics where the claim promises a diagnostic). The loop that looks
  for a whitelisted argument runs \<open>isWhitelisted\<close> on every argument before the
  whitelisted one. In \<open>b.X("foo", err, p)\<close> under \<open>a/b.X=1\<close> two arguments follow the
  offset and \<open>p\<close> is of the whitelisted type, but the test of \<open>err\<close> panics first:
  no diagnostic is reported (lemma \<open>argsCorrect_whitelist_panic\<close> is the general
  case). Lemma \<open>argsCorrect_whitelisted\<close> is the claim for the calls where the test
  returns on the arguments before the whitelisted one.
\<close>

theorem C4_error_before_whitelisted_panics:
  "visitNode test_offsets test_whitelist test_pass (CallExpr fn_X [lit_foo, var_err, var_p]) =
     Inl NilDereference \<and>
   argsCorrect test_whitelist test_pass ''a/b.X'' 1 (CallExpr fn_X [lit_foo, var_err, var_p]) =
     Inl NilDereference"
  by (simp add: visitNode_def argsCorrect_def isWhitelisted_def isWhitelistedNamed_def
      whitelistKey_def test_defs)

text \<open>
  C5, as stated, fails twice. An argument at a key position for which the type
  checker recorded neither a value nor a type is not a constant and not of a string
  type, and gets no diagnostic. And the diagnostic of a constant names the static
  type of the constant, not its kind: a constant of the named type \<open>a.Level\<close>, of
  kind \<open>Int\<close>, is reported as \<open>constant a.Level\<close>.
\<close>

theorem C5_counterexample:
  "Value (TypesOf test_pass untyped_arg) = None \<and>
   Type (TypesOf test_pass untyped_arg) = None \<and>
   argsCorrect test_whitelist test_pass ''a/b.X'' 1 (CallExpr fn_X [lit_foo, untyped_arg, lit_bar])
     = Inr [] \<and>
   Value (TypesOf test_pass const_level) = Some (constant_Value constant_Int) \<and>
   argsCorrect test_whitelist test_pass ''a/b.X'' 1 (CallExpr fn_X [lit_foo, const_level, lit_bar])
     = Inr [\<lparr>Pos' = 110,
            Message = ''arg 1 to a/b.X is constant a.Level but should be a constant string''\<rparr>]"
  by (simp add: argsCorrect_def isWhitelisted_def isWhitelistedNamed_def whitelistKey_def
      whitelisted_def checkKey_def constantMessage_def TypeString_def itoa.simps digit_def
      test_defs)

text \<open>
  C5, amended. When a matched call reaches the key loop (an even number of arguments
  after the offset, the whitelist test returning false on each of them), its
  diagnostics are those of the arguments at even indices, in order, each argument
  judged on its own: nothing for a constant of kind String; one diagnostic
  \<open>arg i to name is constant T but should be a constant string\<close> for any other
  constant, \<open>T\<close> the text of its static type; nothing for a non-constant argument
  whose type has the basic type string as underlying type; one diagnostic
  \<open>arg i to name is expression T but should be a constant string\<close> for a non-constant
  argument of any other type; nothing for an argument with neither value nor type.
  \<open>i\<close> is the index in the full argument list. Arguments at odd indices get
  nothing. The call that follows the theorem has two key diagnostics.
\<close>

theorem C5_key_validation:
  assumes "rel = drop offset args"
    and "even (length rel)"
    and "list_all (\<lambda>a. isWhitelisted w p a = Inr False) rel"
  shows "argsCorrect w p name offset (CallExpr fn args) =
     Inr (concat (map (\<lambda>i.
       if odd i then []
       else (case Value (TypesOf p (rel ! i)) of
          Some v \<Rightarrow>
            if ValueKind v = constant_String then []
            else [\<lparr>Pos' = ExprPos (rel ! i),
                   Message = ''arg '' @ itoa (i + offset) @ '' to '' @ name @ '' is constant ''
                     @ TypeString (Type (TypesOf p (rel ! i)))
                     @ '' but should be a constant string''\<rparr>]
        | None \<Rightarrow>
            (case Type (TypesOf p (rel ! i)) of
               None \<Rightarrow> []
             | Some t \<Rightarrow>
                 if is_Basic (Underlying t) \<and> Kind (Underlying t) = types_String then []
                 else [\<lparr>Pos' = ExprPos (rel ! i),
                        Message = ''arg '' @ itoa (i + offset) @ '' to '' @ name
                          @ '' is expression '' @ typeString t
                          @ '' but should be a constant string''\<rparr>])))
       [0..<length rel]))"
proof (cases "rel = []")
  case True
  then have "length args \<le> offset" using assms(1) by simp
  then show ?thesis using True by (simp add: argsCorrect_def)
next
  case False
  have body: "(if even (0 + i) then checkKey p name offset (0 + i) (rel ! i) else []) =
     (if odd i then []
       else (case Value (TypesOf p (rel ! i)) of
          Some v \<Rightarrow>
            if ValueKind v = constant_String then []
            else [\<lparr>Pos' = ExprPos (rel ! i),
                   Message = ''arg '' @ itoa (i + offset) @ '' to '' @ name @ '' is constant ''
                     @ TypeString (Type (TypesOf p (rel ! i)))
                     @ '' but should be a constant string''\<rparr>]
        | None \<Rightarrow>
            (case Type (TypesOf p (rel ! i)) of
               None \<Rightarrow> []
             | Some t \<Rightarrow>
                 if is_Basic (Underlying t) \<and> Kind (Underlying t) = types_String then []
                 else [\<lparr>Pos' = ExprPos (rel ! i),
                        Message = ''arg '' @ itoa (i + offset) @ '' to '' @ name
                          @ '' is expression '' @ typeString t
                          @ '' but should be a constant string''\<rparr>])))" for i
    by (simp add: checkKey_def constantMessage_def expressionMessage_def TypeString_def
        split: option.splits)
  have "argsCorrect w p name offset (CallExpr fn args) = Inr (keyLoop p name offset 0 rel)"
    using argsCorrect_keys [of offset args w p name fn] False assms by simp
  then show ?thesis
    unfolding keyLoop_concat [of p name offset 0 rel] body by simp
qed

theorem C5_key_validation_witness:
  "argsCorrect test_whitelist test_pass ''a/b.X'' 1
     (CallExpr fn_X [lit_foo, lit_1, lit_bar, var_l, lit_1, var_x, lit_baz]) =
   Inr [\<lparr>Pos' = 104,
         Message = ''arg 1 to a/b.X is constant int but should be a constant string''\<rparr>,
        \<lparr>Pos' = 106,
         Message = ''arg 3 to a/b.X is expression a.logger but should be a constant string''\<rparr>]"
  using C5_key_validation [of "[lit_1, lit_bar, var_l, lit_1, var_x, lit_baz]" 1
      "[lit_foo, lit_1, lit_bar, var_l, lit_1, var_x, lit_baz]"
      test_whitelist test_pass "''a/b.X''" fn_X]
  by (simp add: test_defs isWhitelisted_def isWhitelistedNamed_def whitelistKey_def
      whitelisted_def TypeString_def itoa.simps digit_def upt_rec)

text \<open>
  C10. In the key loop an argument at an even index with neither a constant value nor
  a type is passed over: the diagnostics of the call are those of the arguments
  before it followed by those of the arguments after it.
\<close>

theorem C10_untyped_key_silent:
  assumes "drop offset args = xs @ a # ys"
    and "even (length xs)"
    and "even (length (drop offset args))"
    and "list_all (\<lambda>a. isWhitelisted w p a = Inr False) (drop offset args)"
    and "Value (TypesOf p a) = None"
    and "Type (TypesOf p a) = None"
  shows "argsCorrect w p name offset (CallExpr fn args) =
           Inr (keyLoop p name offset 0 xs @ keyLoop p name offset (Suc (length xs)) ys)"
proof -
  have silent: "checkKey p name offset (length xs) a = []"
    using assms(5,6) by (simp add: checkKey_def)
  have "keyLoop p name offset 0 (xs @ a # ys) =
      keyLoop p name offset 0 xs @ keyLoop p name offset (Suc (length xs)) ys"
    by (simp add: keyLoop_append keyLoop_Cons silent del: keyLoop.simps)
  moreover have "drop offset args \<noteq> []" using assms(1) by simp
  ultimately show ?thesis
    using argsCorrect_keys [OF _ assms(3,4)] assms(1) by simp
qed

theorem C10_untyped_key_silent_witness:
  "argsCorrect test_whitelist test_pass ''a/b.X'' 1
     (CallExpr fn_X [lit_foo, lit_1, lit_bar, untyped_arg, lit_baz]) =
   Inr [\<lparr>Pos' = 104,
         Message = ''arg 1 to a/b.X is constant int but should be a constant string''\<rparr>]"
proof -
  have "argsCorrect test_whitelist test_pass ''a/b.X'' 1
     (CallExpr fn_X [lit_foo, lit_1, lit_bar, untyped_arg, lit_baz]) =
     Inr (keyLoop test_pass ''a/b.X'' 1 0 [lit_1, lit_bar]
       @ keyLoop test_pass ''a/b.X'' 1 (Suc (length [lit_1, lit_bar])) [lit_baz])"
    by (rule C10_untyped_key_silent [where a = untyped_arg])
       (simp_all add: test_defs isWhitelisted_def isWhitelistedNamed_def)
  then show ?thesis
    by (simp add: test_defs checkKey_def constantMessage_def TypeString_def itoa.simps digit_def)
qed

section \<open>The claim about the rule of a method call\<close>

text \<open>
  C6 (the analyzer panics where the claim promises a call that is not matched). The
  generic selector is probed first and wins (lemma \<open>visitNode_generic\<close>), and the
  concrete selector is probed only when it is absent (lemma \<open>visitNode_concrete\<close>).
  But the concrete probe reads \<open>named.Obj().Pkg().Path()\<close>: for a receiver of the
  predeclared type \<open>error\<close>, as in \<open>err.Error()\<close> with no rule for any method
  \<open>Error\<close>, it panics instead of leaving the call unmatched (lemma
  \<open>visitNode_universe_receiver\<close> is the general case).
\<close>

theorem C6_error_receiver_panics:
  "visitNode test_offsets test_whitelist test_pass (CallExpr sel_err_Error []) =
     Inl NilDereference"
  by (simp add: visitNode_def test_defs)

section \<open>The claims about the parsers of the flags\<close>

text \<open>
  C8, as stated, fails: \<open>github.com/foo\<close> has a dot inside, and \<open>typeWhitelist.Set\<close>
  refuses it, because a slash follows its last dot.
\<close>

theorem C8_counterexample:
  "typeWhitelist_Set test_whitelist ''github.com/foo'' =
     Inl (errorString ''invalid type whitelist; should be of form <pkg>.<type>'')"
  by (simp add: typeWhitelist_Set_def FindStringSubmatch_def typeWhitelistMatcher_def)

text \<open>
  C8, amended. \<open>typeWhitelist.Set\<close> succeeds exactly on the texts \<open>p.t\<close> where \<open>t\<close>,
  what follows the last dot, is not empty and holds no slash, and \<open>p\<close>, what precedes
  the last dot, holds no newline; it then registers the package \<open>p\<close> and the type
  \<open>t\<close>. On every other text it returns the error
  \<open>invalid type whitelist; should be of form <pkg>.<type>\<close>.
\<close>

theorem C8_typeWhitelist_Set:
  "(whitelistShape v p t \<longrightarrow>
      typeWhitelist_Set w v = Inr (w(\<lparr>wl_pkg = p, wl_typ = t\<rparr> \<mapsto> True))) \<and>
   (\<not> (\<exists>p t. whitelistShape v p t) \<longrightarrow>
      typeWhitelist_Set w v =
        Inl (errorString ''invalid type whitelist; should be of form <pkg>.<type>''))"
  using typeWhitelist_Set_shape typeWhitelist_Set_no_shape by blast

theorem C8_typeWhitelist_Set_witness:
  "whitelistShape ''a/b.Pairs'' ''a/b'' ''Pairs'' \<and>
   typeWhitelist_Set Map.empty ''a/b.Pairs'' =
     Inr [\<lparr>wl_pkg = ''a/b'', wl_typ = ''Pairs''\<rparr> \<mapsto> True] \<and>
   \<not> (\<exists>p t. whitelistShape ''ab'' p t) \<and>
   typeWhitelist_Set Map.empty ''ab'' =
     Inl (errorString ''invalid type whitelist; should be of form <pkg>.<type>'')"
proof -
  have yes: "whitelistShape ''a/b.Pairs'' ''a/b'' ''Pairs''"
    by (simp add: whitelistShape_def)
  have no: "\<not> (\<exists>p t. whitelistShape ''ab'' p t)"
  proof
    assume "\<exists>p t. whitelistShape ''ab'' p t"
    then obtain p t where "''ab'' = p @ CHR ''.'' # t" by (auto simp: whitelistShape_def)
    then have "CHR ''.'' \<in> set ''ab''" by (metis in_set_conv_decomp)
    then show False by simp
  qed
  from C8_typeWhitelist_Set [of "''a/b.Pairs''" "''a/b''" "''Pairs''" Map.empty] yes
  have 1: "typeWhitelist_Set Map.empty ''a/b.Pairs'' =
     Inr [\<lparr>wl_pkg = ''a/b'', wl_typ = ''Pairs''\<rparr> \<mapsto> True]" by blast
  from C8_typeWhitelist_Set [of "''ab''" "[]" "[]" Map.empty] no
  have 2: "typeWhitelist_Set Map.empty ''ab'' =
     Inl (errorString ''invalid type whitelist; should be of form <pkg>.<type>'')" by blast
  from yes no 1 2 show ?thesis by blast
qed

text \<open>
  C9. \<open>funcOffset.Set\<close> returns an error if and only if the text has not the shape
  of a rule or its offset does not fit an \<open>int\<close> (of 64 bits): the error of the
  pattern when no reading of the text has the shape, the range error of
  \<open>strconv.Atoi\<close> otherwise. A text that has the shape has a parse with a shortest
  package path, and on success the table maps the selector of that parse to the value
  of the digits. Registering a second rule with the same selector leaves the table
  that holds the second offset only.
\<close>

theorem C9_funcOffset_Set:
  "(isError (funcOffset_Set offs v) \<longleftrightarrow>
      \<not> (\<exists>p t f d. ruleShape v p t f d \<and> decimal 0 d < 2 ^ 63)) \<and>
   (\<not> (\<exists>p t f d. ruleShape v p t f d) \<longrightarrow>
      funcOffset_Set offs v =
        Inl (errorString
              ''invalid func offset; should be of form [pkg[.type]].<func>=<offset>'')) \<and>
   ((\<exists>p t f d. ruleShape v p t f d) \<longrightarrow> (\<exists>p t f d. ruleParse v p t f d)) \<and>
   (ruleParse v p t f d \<longrightarrow>
      funcOffset_Set offs v =
        (if decimal 0 d < 2 ^ 63
         then Inr (offs(\<lparr>sel_pkg = p, sel_typ = t, sel_fun = f\<rparr> \<mapsto> decimal 0 d))
         else Inl (NumError ''Atoi'' d ErrRange))) \<and>
   (ruleParse v p t f d \<and> decimal 0 d < 2 ^ 63 \<and>
    ruleParse v' p t f d' \<and> decimal 0 d' < 2 ^ 63 \<longrightarrow>
      (\<exists>offs'. funcOffset_Set offs v = Inr offs' \<and>
         funcOffset_Set offs' v' =
           Inr (offs(\<lparr>sel_pkg = p, sel_typ = t, sel_fun = f\<rparr> \<mapsto> decimal 0 d'))))"
proof (intro conjI impI)
  show "isError (funcOffset_Set offs v) \<longleftrightarrow>
      \<not> (\<exists>p t f d. ruleShape v p t f d \<and> decimal 0 d < 2 ^ 63)"
    by (rule funcOffset_Set_error)
next
  assume "\<not> (\<exists>p t f d. ruleShape v p t f d)"
  then show "funcOffset_Set offs v =
      Inl (errorString ''invalid func offset; should be of form [pkg[.type]].<func>=<offset>'')"
    by (rule funcOffset_Set_no_rule)
next
  assume "\<exists>p t f d. ruleShape v p t f d"
  then show "\<exists>p t f d. ruleParse v p t f d" using ruleShape_parse by blast
next
  assume "ruleParse v p t f d"
  then show "funcOffset_Set offs v =
      (if decimal 0 d < 2 ^ 63
       then Inr (offs(\<lparr>sel_pkg = p, sel_typ = t, sel_fun = f\<rparr> \<mapsto> decimal 0 d))
       else Inl (NumError ''Atoi'' d ErrRange))"
    by (rule funcOffset_Set_rule)
next
  assume a: "ruleParse v p t f d \<and> decimal 0 d < 2 ^ 63 \<and>
    ruleParse v' p t f d' \<and> decimal 0 d' < 2 ^ 63"
  let ?sel = "\<lparr>sel_pkg = p, sel_typ = t, sel_fun = f\<rparr>"
  from a have pa: "ruleParse v p t f d" and lt: "decimal 0 d < 2 ^ 63"
    and pa': "ruleParse v' p t f d'" and lt': "decimal 0 d' < 2 ^ 63"
    by blast+
  have 1: "funcOffset_Set offs v = Inr (offs(?sel \<mapsto> decimal 0 d))"
    unfolding funcOffset_Set_rule [OF pa] using lt by (simp only: if_True)
  have "funcOffset_Set (offs(?sel \<mapsto> decimal 0 d)) v' =
      Inr (offs(?sel \<mapsto> decimal 0 d, ?sel \<mapsto> decimal 0 d'))"
    unfolding funcOffset_Set_rule [OF pa'] using lt' by (simp only: if_True)
  then have 2: "funcOffset_Set (offs(?sel \<mapsto> decimal 0 d)) v' =
      Inr (offs(?sel \<mapsto> decimal 0 d'))"
    by simp
  from 1 2 show "\<exists>offs'. funcOffset_Set offs v = Inr offs' \<and>
      funcOffset_Set offs' v' = Inr (offs(?sel \<mapsto> decimal 0 d'))"
    by blast
qed

text \<open>
  The rules of the tests, read as rules.
\<close>

lemma test_rule_Y_Z: "ruleParse ''a/b.Y.Z=0'' ''a/b'' ''Y'' ''Z'' ''0''"
  by (rule ruleParse_typed) (simp_all add: ruleShape_def isDigit_def)

lemma test_rule_Y_Z_again: "ruleParse ''a/b.Y.Z=2'' ''a/b'' ''Y'' ''Z'' ''2''"
  by (rule ruleParse_typed) (simp_all add: ruleShape_def isDigit_def)

lemma test_rule_wrong_range:
  "ruleParse ''.wrong=999999999999999999999999999999999999'' [] [] ''wrong''
     ''999999999999999999999999999999999999''"
  by (rule ruleParse_untyped) (simp_all add: ruleShape_def isDigit_def)

lemma test_rule_wrong: "\<not> (\<exists>p t f d. ruleShape ''wrong'' p t f d)"
proof
  assume "\<exists>p t f d. ruleShape ''wrong'' p t f d"
  then obtain a b where "''wrong'' = a @ CHR ''.'' # b"
    unfolding ruleShape_def by (metis append_assoc)
  then have "CHR ''.'' \<in> set ''wrong''" by (metis in_set_conv_decomp)
  then show False by simp
qed

theorem C9_funcOffset_Set_witness:
  "funcOffset_Set Map.empty ''a/b.Y.Z=0'' =
     Inr [\<lparr>sel_pkg = ''a/b'', sel_typ = ''Y'', sel_fun = ''Z''\<rparr> \<mapsto> 0] \<and>
   funcOffset_Set [\<lparr>sel_pkg = ''a/b'', sel_typ = ''Y'', sel_fun = ''Z''\<rparr> \<mapsto> 0] ''a/b.Y.Z=2'' =
     Inr [\<lparr>sel_pkg = ''a/b'', sel_typ = ''Y'', sel_fun = ''Z''\<rparr> \<mapsto> 2] \<and>
   funcOffset_Set Map.empty ''wrong'' =
     Inl (errorString ''invalid func offset; should be of form [pkg[.type]].<func>=<offset>'') \<and>
   funcOffset_Set Map.empty ''.wrong=999999999999999999999999999999999999'' =
     Inl (NumError ''Atoi'' ''999999999999999999999999999999999999'' ErrRange)"
proof -
  have v0: "decimal 0 ''0'' = 0" and v2: "decimal 0 ''2'' = 2"
    and big: "\<not> decimal 0 ''999999999999999999999999999999999999'' < 2 ^ 63"
    and lt0: "decimal 0 ''0'' < 2 ^ 63" and lt2: "decimal 0 ''2'' < 2 ^ 63"
    by (simp_all add: digitValue_def)
  have 1: "funcOffset_Set Map.empty ''a/b.Y.Z=0'' =
     Inr [\<lparr>sel_pkg = ''a/b'', sel_typ = ''Y'', sel_fun = ''Z''\<rparr> \<mapsto> 0]"
    using C9_funcOffset_Set [of Map.empty "''a/b.Y.Z=0''" "''a/b''" "''Y''" "''Z''" "''0''"]
      test_rule_Y_Z v0 by simp
  have "\<exists>offs'. funcOffset_Set Map.empty ''a/b.Y.Z=0'' = Inr offs' \<and>
      funcOffset_Set offs' ''a/b.Y.Z=2'' =
        Inr [\<lparr>sel_pkg = ''a/b'', sel_typ = ''Y'', sel_fun = ''Z''\<rparr> \<mapsto> decimal 0 ''2'']"
    using C9_funcOffset_Set [of Map.empty "''a/b.Y.Z=0''" "''a/b''" "''Y''" "''Z''" "''0''"
        "''a/b.Y.Z=2''" "''2''"]
      test_rule_Y_Z test_rule_Y_Z_again lt0 lt2 by blast
  then obtain offs' where "funcOffset_Set Map.empty ''a/b.Y.Z=0'' = Inr offs'"
    and "funcOffset_Set offs' ''a/b.Y.Z=2'' =
        Inr [\<lparr>sel_pkg = ''a/b'', sel_typ = ''Y'', sel_fun = ''Z''\<rparr> \<mapsto> decimal 0 ''2'']"
    by blast
  with 1 v2 have 2: "funcOffset_Set [\<lparr>sel_pkg = ''a/b'', sel_typ = ''Y'', sel_fun = ''Z''\<rparr> \<mapsto> 0]
      ''a/b.Y.Z=2'' = Inr [\<lparr>sel_pkg = ''a/b'', sel_typ = ''Y'', sel_fun = ''Z''\<rparr> \<mapsto> 2]"
    by (simp add: numeral_2_eq_2)
  have 3: "funcOffset_Set Map.empty ''wrong'' =
     Inl (errorString ''invalid func offset; should be of form [pkg[.type]].<func>=<offset>'')"
    using C9_funcOffset_Set [of Map.empty "''wrong''"] test_rule_wrong by blast
  have 4: "funcOffset_Set Map.empty ''.wrong=999999999999999999999999999999999999'' =
     Inl (NumError ''Atoi'' ''999999999999999999999999999999999999'' ErrRange)"
    using C9_funcOffset_Set [of Map.empty "''.wrong=999999999999999999999999999999999999''"
        "[]" "[]" "''wrong''" "''999999999999999999999999999999999999''"]
      test_rule_wrong_range big by simp
  from 1 2 3 4 show ?thesis by auto
qed

text \<open>
  The first three cases of \<open>TestFuncOffset\<close>, run through the matcher itself (the
  last two are above).
\<close>

lemma TestFuncOffset_0:
  "funcOffset_Set Map.empty ''.Log=0'' =
     Inr [\<lparr>sel_pkg = [], sel_typ = [], sel_fun = ''Log''\<rparr> \<mapsto> 0]"
  by (simp add: funcOffset_Set_def FindStringSubmatch_def funcOffsetMatcher_def Atoi_def
      isDigit_def digitValue_def)

lemma TestFuncOffset_1:
  "funcOffset_Set Map.empty ''go.zr.org/common/go/errors/details.Pairs.AddPairs=1'' =
     Inr [\<lparr>sel_pkg = ''go.zr.org/common/go/errors/details'', sel_typ = ''Pairs'',
           sel_fun = ''AddPairs''\<rparr> \<mapsto> 1]"
  by (simp add: funcOffset_Set_def FindStringSubmatch_def funcOffsetMatcher_def Atoi_def
      isDigit_def digitValue_def)

lemma TestFuncOffset_2:
  "funcOffset_Set Map.empty ''go.zr.org/common/go/errors.Wrap=2'' =
     Inr [\<lparr>sel_pkg = ''go.zr.org/common/go/errors'', sel_typ = [], sel_fun = ''Wrap''\<rparr> \<mapsto> 2]"
  by (simp add: funcOffset_Set_def FindStringSubmatch_def funcOffsetMatcher_def Atoi_def
      isDigit_def digitValue_def)

end
